theory Spec2Isabelle
  imports Main "HOL-Library.AList"
begin

section \<open>Values\<close>

text \<open>
  The JavaScript values a container can hold. Numbers are integers, objects are
  association lists of their own data properties in insertion order, arrays are dense.
  \<open>FnState v\<close> is a container function (one whose \<open>isFnState\<close> is true) holding \<open>v\<close>,
  other than the function \<open>ctx.state\<close> of the container under consideration, which is
  not a value of the model. Property lookup sees own properties only: the members
  inherited from \<open>Object.prototype\<close> and \<open>Array.prototype\<close> are outside the model.
\<close>

datatype jsval =
    Undefined
  | Null
  | Bool bool
  | Num int
  | Str string
  | Obj "(string \<times> jsval) list"
  | Arr "jsval list"
  | FnState jsval

datatype jstype = TUndefined | TObject | TBoolean | TNumber | TString | TFunction

fun typeof :: "jsval \<Rightarrow> jstype" where
  "typeof Undefined = TUndefined"
| "typeof Null = TObject"
| "typeof (Bool b) = TBoolean"
| "typeof (Num n) = TNumber"
| "typeof (Str s) = TString"
| "typeof (Obj fs) = TObject"
| "typeof (Arr vs) = TObject"
| "typeof (FnState v) = TFunction"

text \<open>\<open>if (v)\<close>: the falsy values are undefined, null, false, 0 and the empty string.\<close>

fun truthy :: "jsval \<Rightarrow> bool" where
  "truthy Undefined = False"
| "truthy Null = False"
| "truthy (Bool b) = b"
| "truthy (Num n) = (n \<noteq> 0)"
| "truthy (Str s) = (s \<noteq> [])"
| "truthy (Obj fs) = True"
| "truthy (Arr vs) = True"
| "truthy (FnState v) = True"

fun isFnState :: "jsval \<Rightarrow> bool" where
  "isFnState (FnState v) = True"
| "isFnState v = False"

fun isArray :: "jsval \<Rightarrow> bool" where
  "isArray (Arr vs) = True"
| "isArray v = False"

subsection \<open>Property names\<close>

text \<open>
  A value used as a property name (\<open>keys[key]\<close>, \<open>boundElementByKey[key]\<close>,
  \<open>selectObservers[key]\<close>) is converted to a string first.
\<close>

fun showNat :: "nat \<Rightarrow> string" where
  "showNat n = (if n < 10 then [''0123456789'' ! n]
                else showNat (n div 10) @ [''0123456789'' ! (n mod 10)])"

declare showNat.simps [simp del]

definition showInt :: "int \<Rightarrow> string" where
  "showInt i = (if i < 0 then CHR ''-'' # showNat (nat (- i)) else showNat (nat i))"

fun joinComma :: "string list \<Rightarrow> string" where
  "joinComma [] = []"
| "joinComma [s] = s"
| "joinComma (s # t # ss) = s @ CHR '','' # joinComma (t # ss)"

text \<open>
  Every container function is the same method \<open>state (newState) {...}\<close>, so all of them
  convert to one and the same source text; \<open>stateSource\<close> stands for that text.
\<close>

definition stateSource :: string where
  "stateSource = ''state (newState) {...}''"

fun propKey :: "jsval \<Rightarrow> string" where
  "propKey Undefined = ''undefined''"
| "propKey Null = ''null''"
| "propKey (Bool b) = (if b then ''true'' else ''false'')"
| "propKey (Num n) = showInt n"
| "propKey (Str s) = s"
| "propKey (Obj fs) = ''[object Object]''"
| "propKey (Arr vs) =
     joinComma (map (\<lambda>v. if v = Undefined \<or> v = Null then [] else propKey v) vs)"
| "propKey (FnState v) = stateSource"

section \<open>Errors and outcomes\<close>

text \<open>
  The errors the modelled code raises. \<open>TypeError\<close> and \<open>NotFoundError\<close> are raised by
  the runtime and the node abstraction, the others by a \<open>throw new Error(...)\<close> of the code.
  \<open>Unmodelled\<close> marks an input at which the behaviour of the source is not modelled.
\<close>

datatype error =
    InvalidPath
  | NotAnObject
  | DuplicateKey
  | NotAnArray
  | TypeError
  | NotFoundError
  | Unmodelled

text \<open>
  A call either returns a value or throws; in both cases the mutations made so far stay,
  so both carry the state reached.
\<close>

datatype ('a, 's) outcome = Return 'a 's | Throw error 's

fun stateOf :: "('a, 's) outcome \<Rightarrow> 's" where
  "stateOf (Return a s) = s"
| "stateOf (Throw e s) = s"

fun thrown :: "('a, 's) outcome \<Rightarrow> error option" where
  "thrown (Return a s) = None"
| "thrown (Throw e s) = Some e"

section \<open>Nodes and bind contexts\<close>

text \<open>
  A rendered node: its identity, its \<open>key\<close> tag and whether it is an Element (which
  has \<open>insertAdjacentElement\<close>) or a Text node (which has not).
\<close>

record node =
  nodeId :: nat
  nodeKey :: jsval
  isElement :: bool

text \<open>Operations on a parent node, as issued against its child list.\<close>

datatype domop =
    Append node
  | InsertBefore node node
  | ReplaceWith node node
  | Remove node

text \<open>
  \<open>{ element, update, parent }\<close> plus \<open>boundElementByKey\<close>. \<open>element\<close> is taken to be a
  function; applied to an item it tells whether the node it renders is an Element.
  \<open>parent\<close> is the child list of the parent node; every bind context has a parent of
  its own. \<open>boundElementByKey\<close> starts as the empty object that \<open>reconcile\<close> puts in
  place of \<open>undefined\<close>. \<open>update\<close> is never read by the reconciliation and is left out.
  \<open>nextNode\<close>, \<open>rendered\<close> and \<open>ops\<close> record the identity of the next node to be created,
  the keys \<open>element\<close> was called for and the operations issued on the parent.
\<close>

record bindContext =
  element :: "jsval \<Rightarrow> bool"
  parent :: "node list"
  boundElementByKey :: "(string \<times> node) list"
  nextNode :: nat
  rendered :: "jsval list"
  ops :: "domop list"

section \<open>The state container\<close>

text \<open>
  An observer function is either a callback of the caller, which records its call and
  does not call back into the container, or the subscriber that \<open>doBindChildren\<close> installs.
\<close>

datatype callback = UserFn nat | ChildrenSubscriber

record observer =
  oid :: nat
  fn :: callback

datatype warning = IndexKeyWarning | NonArrayWarning

datatype event =
    Notified nat jsval jsval
  | Fired nat
  | Warned warning

text \<open>
  The object \<open>ctx\<close> of \<open>fnstate\<close>. \<open>mapKey\<close> is \<open>None\<close> when it is not a function; a key
  function takes the parameters \<open>(o, i)\<close>. \<open>nulled\<close> holds the ids of the unsubscribe
  closures whose captured \<open>list\<close> has been set to null. \<open>events\<close> holds, in the order
  they happen, the calls \<open>observer.fn(newState, oldState)\<close> under the observer's id, the
  calls of selection callbacks and the console warnings.
\<close>

record ctx =
  currentValue :: jsval
  observers :: "observer list"
  bindContexts :: "bindContext list"
  selectObservers :: "(string \<times> nat list) list"
  nextId :: nat
  mapKey :: "(jsval \<Rightarrow> jsval \<Rightarrow> jsval) option"
  selected :: jsval
  nulled :: "nat list"
  events :: "event list"

definition fnstate :: "jsval \<Rightarrow> (jsval \<Rightarrow> jsval \<Rightarrow> jsval) option \<Rightarrow> ctx" where
  "fnstate initialValue mk =
     \<lparr> currentValue = initialValue, observers = [], bindContexts = [],
       selectObservers = [], nextId = 0, mapKey = mk, selected = Undefined,
       nulled = [], events = [] \<rparr>"


subsection \<open>Reading and writing the value\<close>

text \<open>
  The body of the loop \<open>for (const observer of ctx.observers) observer.fn(newState, oldState)\<close>,
  with \<open>st\<close> for \<open>ctx.state\<close> called with one argument that is not \<open>ctx.state\<close>.
  No modelled observer changes \<open>ctx.observers\<close>, so the loop runs over the list as it is
  when the loop starts. The definitions of the subscriber installed by \<open>doBindChildren\<close>
  follow in the next section; \<open>sub\<close> stands for it here.
\<close>

fun notifyAll ::
  "(jsval \<Rightarrow> jsval \<Rightarrow> ctx \<Rightarrow> (unit, ctx) outcome option) \<Rightarrow> observer list \<Rightarrow>
   jsval \<Rightarrow> jsval \<Rightarrow> ctx \<Rightarrow> (unit, ctx) outcome option" where
  "notifyAll sub [] newState oldState c = Some (Return () c)"
| "notifyAll sub (ob # obs) newState oldState c =
     (case fn ob of
        UserFn l \<Rightarrow>
          notifyAll sub obs newState oldState
            (c\<lparr>events := events c @ [Notified (oid ob) newState oldState]\<rparr>)
      | ChildrenSubscriber \<Rightarrow>
          (case sub newState oldState
                  (c\<lparr>events := events c @ [Notified (oid ob) newState oldState]\<rparr>) of
             None \<Rightarrow> None
           | Some (Throw e c') \<Rightarrow> Some (Throw e c')
           | Some (Return u c') \<Rightarrow> notifyAll sub obs newState oldState c'))"

section \<open>Subscriptions\<close>

text \<open>\<open>doSubscribe(ctx, ctx.observers, listener)\<close>; the token returned is named by its id.\<close>

definition doSubscribe :: "callback \<Rightarrow> ctx \<Rightarrow> nat \<times> ctx" where
  "doSubscribe listener c =
     (nextId c,
      c\<lparr>nextId := nextId c + 1,
        observers := observers c @ [\<lparr>oid = nextId c, fn = listener\<rparr>]\<rparr>)"

text \<open>\<open>list.findIndex(p)\<close>: the first index whose element satisfies \<open>p\<close>, or \<open>-1\<close>.\<close>

fun findIndex :: "('a \<Rightarrow> bool) \<Rightarrow> 'a list \<Rightarrow> int" where
  "findIndex p [] = - 1"
| "findIndex p (x # xs) =
     (if p x then 0 else (let i = findIndex p xs in if i < 0 then - 1 else i + 1))"

text \<open>
  \<open>list.splice(start, 1)\<close>: a negative \<open>start\<close> counts from the end; one element is
  removed at the resulting position if there is one.
\<close>

definition splice1 :: "int \<Rightarrow> 'a list \<Rightarrow> 'a list" where
  "splice1 start xs =
     (let len = int (length xs);
          s = (if start < 0 then max (len + start) 0 else min start len)
      in take (nat s) xs @ drop (nat s + 1) xs)"

text \<open>
  Calling the token of the subscription \<open>tok\<close>:
  \<open>list.splice(list.findIndex(l => l.id === id), 1); list = null\<close>. Once \<open>list\<close> is
  null, \<open>list.splice\<close> is a property read on null.
\<close>

definition unsubscribe :: "nat \<Rightarrow> ctx \<Rightarrow> (unit, ctx) outcome" where
  "unsubscribe tok c =
     (if tok \<in> set (nulled c) then Throw TypeError c
      else Return ()
        (c\<lparr>observers := splice1 (findIndex (\<lambda>l. oid l = tok) (observers c)) (observers c),
           nulled := tok # nulled c\<rparr>))"

section \<open>Selection\<close>



section \<open>Paths\<close>


definition arrayIndex :: "string \<Rightarrow> jsval list \<Rightarrow> nat option" where
  "arrayIndex part vs = find (\<lambda>i. showNat i = part) [0..<length vs]"


fun getProperty :: "string \<Rightarrow> jsval \<Rightarrow> jsval" where
  "getProperty part (Obj fs) = (case map_of fs part of Some v \<Rightarrow> v | None \<Rightarrow> Undefined)"
| "getProperty part (Arr vs) =
     (if part = ''length'' then Num (int (length vs))
      else case arrayIndex part vs of Some i \<Rightarrow> vs ! i | None \<Rightarrow> Undefined)"
| "getProperty part v = Undefined"




section \<open>The node abstraction\<close>

text \<open>
  The operations of the node abstraction on the child list of a parent. A node is in
  the list at most once: putting a node that is already a child somewhere else in the
  list moves it. \<open>ops\<close> records every change made to the child list; an operation on
  a node that has no parent does nothing and records nothing.
\<close>

definition lastChild :: "node list \<Rightarrow> node option" where
  "lastChild cs = (if cs = [] then None else Some (last cs))"

fun previousSibling :: "node \<Rightarrow> node list \<Rightarrow> node option" where
  "previousSibling u [] = None"
| "previousSibling u [x] = None"
| "previousSibling u (x # y # cs) = (if y = u then Some x else previousSibling u (y # cs))"

text \<open>\<open>parent.append(u)\<close>.\<close>

definition appendChild :: "node \<Rightarrow> bindContext \<Rightarrow> bindContext" where
  "appendChild u bc = bc\<lparr>parent := removeAll u (parent bc) @ [u], ops := ops bc @ [Append u]\<rparr>"

text \<open>The child list with \<open>u\<close> put immediately before the child \<open>r\<close>.\<close>

definition putBefore :: "node \<Rightarrow> node \<Rightarrow> node list \<Rightarrow> node list" where
  "putBefore u r cs =
     (if u = r then cs
      else takeWhile (\<lambda>x. x \<noteq> r) (removeAll u cs) @ u # dropWhile (\<lambda>x. x \<noteq> r) (removeAll u cs))"

text \<open>\<open>parent.insertBefore(u, r)\<close>: a NotFoundError when \<open>r\<close> is not a child of the parent.\<close>

definition insertBefore :: "node \<Rightarrow> node \<Rightarrow> bindContext \<Rightarrow> (unit, bindContext) outcome" where
  "insertBefore u r bc =
     (if r \<notin> set (parent bc) then Throw NotFoundError bc
      else Return ()
        (bc\<lparr>parent := putBefore u r (parent bc), ops := ops bc @ [InsertBefore u r]\<rparr>))"

text \<open>
  \<open>r.insertAdjacentElement('beforeBegin', u)\<close>, called on an Element \<open>r\<close>: a TypeError
  when \<open>u\<close> is not an Element, nothing when \<open>r\<close> has no parent.
\<close>

definition insertAdjacentElement ::
  "node \<Rightarrow> node \<Rightarrow> bindContext \<Rightarrow> (unit, bindContext) outcome" where
  "insertAdjacentElement r u bc =
     (if \<not> isElement u then Throw TypeError bc
      else if r \<notin> set (parent bc) then Return () bc
      else Return ()
        (bc\<lparr>parent := putBefore u r (parent bc), ops := ops bc @ [InsertBefore u r]\<rparr>))"

text \<open>\<open>old.replaceWith(new)\<close>: \<open>new\<close> takes the place of \<open>old\<close> and leaves its own.\<close>

definition replaceWith :: "node \<Rightarrow> node \<Rightarrow> bindContext \<Rightarrow> bindContext" where
  "replaceWith old new bc =
     (if old \<notin> set (parent bc) then bc
      else bc\<lparr>parent :=
                 concat (map (\<lambda>x. if x = old then [new] else if x = new then [] else [x])
                   (parent bc)),
              ops := ops bc @ [ReplaceWith old new]\<rparr>)"

text \<open>\<open>u.remove()\<close>.\<close>

definition removeNode :: "node \<Rightarrow> bindContext \<Rightarrow> bindContext" where
  "removeNode u bc =
     (if u \<notin> set (parent bc) then bc
      else bc\<lparr>parent := removeAll u (parent bc), ops := ops bc @ [Remove u]\<rparr>)"

text \<open>\<open>parent.textContent = ''\<close> removes every child.\<close>

definition clearChildren :: "bindContext \<Rightarrow> bindContext" where
  "clearChildren bc = bc\<lparr>parent := [], ops := ops bc @ map Remove (parent bc)\<rparr>"

section \<open>Reconciliation\<close>

definition keyMapper :: "(jsval \<Rightarrow> jsval \<Rightarrow> jsval) option \<Rightarrow> jsval \<Rightarrow> jsval" where
  "keyMapper mk v =
     (if typeof v \<noteq> TObject then v
      else case mk of
             None \<Rightarrow> Num 0
           | Some f \<Rightarrow> f v Undefined)"

text \<open>\<open>valueState()\<close> for an item that is a container function.\<close>

fun readState :: "jsval \<Rightarrow> jsval" where
  "readState (FnState v) = v"
| "readState v = v"

text \<open>
  The first loop of \<open>arrangeElements\<close>, over the items from index \<open>length pre\<close> on:
  \<open>pre\<close> are the items already visited, \<open>keys\<close> and \<open>keysArr\<close> the two tables. The
  loop writes the wrapped item back into the array, so the array is returned, with
  \<open>None\<close> when a key comes a second time and the tables otherwise. The entry stored in
  \<open>keys\<close> is the index, a non-empty string in the source and so never falsy.
\<close>

fun keyLoop ::
  "(jsval \<Rightarrow> jsval \<Rightarrow> jsval) option \<Rightarrow> jsval list \<Rightarrow> jsval list \<Rightarrow> (string \<times> nat) list \<Rightarrow>
   jsval list \<Rightarrow> jsval list \<times> ((string \<times> nat) list \<times> jsval list) option" where
  "keyLoop mk pre [] keys keysArr = (pre, Some (keys, keysArr))"
| "keyLoop mk pre (v # rest) keys keysArr =
     (let valueState = (if isFnState v then v else FnState v);
          k = keyMapper mk (readState valueState)
      in if map_of keys (propKey k) \<noteq> None then (pre @ valueState # rest, None)
         else keyLoop mk (pre @ [valueState]) rest
                (AList.update (propKey k) (length pre) keys) (keysArr @ [k]))"

text \<open>
  One round of the second loop, first part: the node bound to the key \<open>k\<close> of the item
  \<open>valueState\<close>, rendered and tagged now if there is none (\<open>isNew\<close>). The link
  \<open>valueState.parentCtx\<close> is not modelled.
\<close>

definition currentNode :: "jsval \<Rightarrow> jsval \<Rightarrow> bindContext \<Rightarrow> node \<times> bool \<times> bindContext" where
  "currentNode k valueState bc =
     (case map_of (boundElementByKey bc) (propKey k) of
        Some u \<Rightarrow> (u, False, bc)
      | None \<Rightarrow>
          (let current = \<lparr>nodeId = nextNode bc, nodeKey = k, isElement = element bc valueState\<rparr>
           in (current, True,
               bc\<lparr>boundElementByKey := AList.update (propKey k) current (boundElementByKey bc),
                  nextNode := nextNode bc + 1,
                  rendered := rendered bc @ [k]\<rparr>)))"

text \<open>
  Second part: \<open>current\<close> is put in its place in the parent, \<open>prev\<close> being the node
  placed in the round before. The state is the bind context and \<open>ctx.selectObservers\<close>.
\<close>

definition placeNode ::
  "(string \<times> nat) list \<Rightarrow> node option \<Rightarrow> node \<Rightarrow> bool \<Rightarrow>
   bindContext \<times> (string \<times> nat list) list \<Rightarrow>
   (node, bindContext \<times> (string \<times> nat list) list) outcome" where
  "placeNode keys prev current isNew s =
     (let bc = fst s; so = snd s
      in case prev of
           None \<Rightarrow>
             (case lastChild (parent bc) of
                None \<Rightarrow> Return current (appendChild current bc, so)
              | Some l \<Rightarrow>
                  if nodeKey l \<noteq> nodeKey current
                  then Return current (appendChild current bc, so)
                  else Return current (bc, so))
         | Some p \<Rightarrow>
             (case previousSibling p (parent bc) of
                None \<Rightarrow>
                  (case (if isElement p \<and> isElement current
                         then insertAdjacentElement p current bc
                         else insertBefore current p bc) of
                     Throw e bc' \<Rightarrow> Throw e (bc', so)
                   | Return u bc' \<Rightarrow> Return current (bc', so))
              | Some x \<Rightarrow>
                  if nodeKey x \<noteq> nodeKey current then
                    (if map_of keys (propKey (nodeKey x)) = None then
                       Return current
                         (replaceWith x current
                            (bc\<lparr>boundElementByKey :=
                                  AList.delete (propKey (nodeKey x)) (boundElementByKey bc)\<rparr>),
                          if map_of so (propKey (nodeKey x)) \<noteq> None \<and> isElement current
                          then AList.delete (propKey (nodeKey x)) so else so)
                     else if isNew then
                       (case (if isElement p
                              then insertAdjacentElement p current bc
                              else insertBefore current p bc) of
                          Throw e bc' \<Rightarrow> Throw e (bc', so)
                        | Return u bc' \<Rightarrow> Return current (bc', so))
                     else Return current (replaceWith x current bc, so))
                  else Return current (bc, so)))"

definition placeElement ::
  "(string \<times> nat) list \<Rightarrow> node option \<Rightarrow> jsval \<Rightarrow> jsval \<Rightarrow>
   bindContext \<times> (string \<times> nat list) list \<Rightarrow>
   (node, bindContext \<times> (string \<times> nat list) list) outcome" where
  "placeElement keys prev k valueState s =
     (case currentNode k valueState (fst s) of
        (current, isNew, bc) \<Rightarrow> placeNode keys prev current isNew (bc, snd s))"

text \<open>
  The second loop, from the last item to the first: \<open>items\<close> are the pairs of
  \<open>keysArr[i]\<close> and \<open>ctx.currentValue[i]\<close> in the order visited.
\<close>

fun placeAll ::
  "(string \<times> nat) list \<Rightarrow> (jsval \<times> jsval) list \<Rightarrow> node option \<Rightarrow>
   bindContext \<times> (string \<times> nat list) list \<Rightarrow>
   (unit, bindContext \<times> (string \<times> nat list) list) outcome" where
  "placeAll keys [] prev s = Return () s"
| "placeAll keys (kv # items) prev s =
     (case placeElement keys prev (fst kv) (snd kv) s of
        Throw e s' \<Rightarrow> Throw e s'
      | Return current s' \<Rightarrow> placeAll keys items (Some current) s')"

text \<open>
  The last loop, over the property names of \<open>boundElementByKey\<close> as they are when the
  loop starts.
\<close>

fun removeStrays ::
  "(string \<times> nat) list \<Rightarrow> string list \<Rightarrow> bindContext \<times> (string \<times> nat list) list \<Rightarrow>
   bindContext \<times> (string \<times> nat list) list" where
  "removeStrays keys [] s = s"
| "removeStrays keys (k # ks) s =
     (if map_of keys k = None then
        (case map_of (boundElementByKey (fst s)) k of
           None \<Rightarrow> removeStrays keys ks s
         | Some u \<Rightarrow>
             removeStrays keys ks
               ((removeNode u (fst s))\<lparr>boundElementByKey :=
                                         AList.delete k (boundElementByKey (fst s))\<rparr>,
                if map_of (snd s) k \<noteq> None then AList.delete k (snd s) else snd s))
      else removeStrays keys ks s)"


text \<open>\<open>v?.length\<close>; a function has the number of its parameters as length.\<close>

fun lengthOf :: "jsval \<Rightarrow> jsval" where
  "lengthOf (Str s) = Num (int (length s))"
| "lengthOf (Arr vs) = Num (int (length vs))"
| "lengthOf (Obj fs) = getProperty ''length'' (Obj fs)"
| "lengthOf (FnState v) = Num 1"
| "lengthOf v = Undefined"

definition setBindContext :: "nat \<Rightarrow> bindContext \<Rightarrow> ctx \<Rightarrow> ctx" where
  "setBindContext i bc c = c\<lparr>bindContexts := (bindContexts c)[i := bc]\<rparr>"

text \<open>
  \<open>arrangeElements(ctx, bindContext, oldState)\<close> for the bind context at index \<open>i\<close> of
  \<open>ctx.bindContexts\<close>, with \<open>st\<close> for \<open>ctx.state\<close> called with one argument. Both callers
  test \<open>Array.isArray\<close> first; the loops over a value that has a truthy length and is
  not an array are not modelled.
\<close>

definition arrangeElements ::
  "(jsval \<Rightarrow> ctx \<Rightarrow> (jsval, ctx) outcome option) \<Rightarrow> nat \<Rightarrow> jsval \<Rightarrow> ctx \<Rightarrow>
   (unit, ctx) outcome option" where
  "arrangeElements st i oldState c =
     (if \<not> truthy (lengthOf (currentValue c)) then
        Some (Return ()
          ((setBindContext i
              ((clearChildren (bindContexts c ! i))\<lparr>boundElementByKey := []\<rparr>) c)
           \<lparr>selectObservers := []\<rparr>))
      else case currentValue c of
        Arr vs \<Rightarrow>
          (case keyLoop (mapKey c) [] vs [] [] of
             (vs', None) \<Rightarrow>
               if truthy oldState then
                 (case st oldState (c\<lparr>currentValue := Arr vs'\<rparr>) of
                    None \<Rightarrow> None
                  | Some (Throw e c') \<Rightarrow> Some (Throw e c')
                  | Some (Return r c') \<Rightarrow> Some (Throw DuplicateKey c'))
               else Some (Throw DuplicateKey (c\<lparr>currentValue := Arr vs'\<rparr>))
           | (vs', Some (keys, keysArr)) \<Rightarrow>
               (case placeAll keys (rev (zip keysArr vs')) None
                       (bindContexts c ! i, selectObservers c) of
                  Throw e s \<Rightarrow>
                    Some (Throw e
                      ((setBindContext i (fst s) c)
                       \<lparr>currentValue := Arr vs', selectObservers := snd s\<rparr>))
                | Return u s \<Rightarrow>
                    (let s' = removeStrays keys (map fst (boundElementByKey (fst s))) s
                     in Some (Return ()
                          ((setBindContext i (fst s') c)
                           \<lparr>currentValue := Arr vs', selectObservers := snd s'\<rparr>)))))
      | v \<Rightarrow> Some (Throw Unmodelled c))"

text \<open>\<open>reconcile(ctx, oldState)\<close>: the bind contexts in order, by index.\<close>

fun reconcileFrom ::
  "(jsval \<Rightarrow> ctx \<Rightarrow> (jsval, ctx) outcome option) \<Rightarrow> nat list \<Rightarrow> jsval \<Rightarrow> ctx \<Rightarrow>
   (unit, ctx) outcome option" where
  "reconcileFrom st [] oldState c = Some (Return () c)"
| "reconcileFrom st (i # is) oldState c =
     (case arrangeElements st i oldState c of
        None \<Rightarrow> None
      | Some (Throw e c') \<Rightarrow> Some (Throw e c')
      | Some (Return u c') \<Rightarrow> reconcileFrom st is oldState c')"

definition reconcile ::
  "(jsval \<Rightarrow> ctx \<Rightarrow> (jsval, ctx) outcome option) \<Rightarrow> jsval \<Rightarrow> ctx \<Rightarrow>
   (unit, ctx) outcome option" where
  "reconcile st oldState c = reconcileFrom st [0..<length (bindContexts c)] oldState c"

text \<open>
  The function that \<open>doBindChildren\<close> subscribes. The executor passed to \<open>new Promise\<close>
  is called by the constructor before the constructor returns, so
  \<open>ctx.state([ctx.currentValue])\<close> runs inside the call of the subscriber; what it
  throws rejects the promise and does not reach the subscriber's caller.
\<close>

definition childrenSubscriber ::
  "(jsval \<Rightarrow> ctx \<Rightarrow> (jsval, ctx) outcome option) \<Rightarrow> jsval \<Rightarrow> jsval \<Rightarrow> ctx \<Rightarrow>
   (unit, ctx) outcome option" where
  "childrenSubscriber st newState oldState c =
     (if \<not> isArray (currentValue c) then
        (case st (Arr [currentValue c]) (c\<lparr>events := events c @ [Warned NonArrayWarning]\<rparr>) of
           None \<Rightarrow> None
         | Some (Throw e c') \<Rightarrow> Some (Return () c')
         | Some (Return r c') \<Rightarrow> Some (Return () c'))
      else reconcile st oldState c)"

text \<open>
  \<open>ctx.state(newState)\<close> on the path that writes. A call made from inside an observer
  can make a call in its turn without end (the source then overflows its stack); the
  first argument bounds the depth of the calls, \<open>None\<close> says the bound was reached.
\<close>

primrec setState :: "nat \<Rightarrow> jsval \<Rightarrow> ctx \<Rightarrow> (jsval, ctx) outcome option" where
  "setState 0 newState c = None"
| "setState (Suc n) newState c =
     (case notifyAll (childrenSubscriber (setState n)) (observers c) newState (currentValue c)
             (c\<lparr>currentValue := newState\<rparr>) of
        None \<Rightarrow> None
      | Some (Throw e c') \<Rightarrow> Some (Throw e c')
      | Some (Return u c') \<Rightarrow> Some (Return newState c'))"

text \<open>
  \<open>ctx.state(...args)\<close>. An argument is the function \<open>ctx.state\<close> itself or a value;
  storing \<open>ctx.state\<close> in its own container is not modelled.
\<close>

datatype arg = Self | Val jsval

definition state :: "nat \<Rightarrow> arg list \<Rightarrow> ctx \<Rightarrow> (jsval, ctx) outcome option" where
  "state n args c =
     (if length args = 0 \<or> (length args = 1 \<and> args ! 0 = Self)
      then Some (Return (currentValue c) c)
      else case args ! 0 of
             Val newState \<Rightarrow> setState n newState c
           | Self \<Rightarrow> Some (Throw Unmodelled c))"

text \<open>An identity that no node of \<open>cs\<close> has.\<close>

definition freshId :: "node list \<Rightarrow> nat" where
  "freshId cs = fold (\<lambda>u n. max n (Suc (nodeId u))) cs 0"

text \<open>
  \<open>doBindChildren(ctx, parent, element, update)\<close> with a parent node whose children are
  \<open>cs\<close> and a function \<open>element\<close>. \<open>v.isFnState\<close> is a property read, a TypeError on
  null and undefined.
\<close>

definition doBindChildren ::
  "nat \<Rightarrow> node list \<Rightarrow> (jsval \<Rightarrow> bool) \<Rightarrow> ctx \<Rightarrow> (unit, ctx) outcome option" where
  "doBindChildren n cs el c =
     (let c1 = (if mapKey c = None
                then c\<lparr>events := events c @ [Warned IndexKeyWarning],
                       mapKey := Some (\<lambda>ob i. i)\<rparr>
                else c)
      in case currentValue c1 of
           Arr vs \<Rightarrow>
             if \<exists>v \<in> set vs. v = Null \<or> v = Undefined then Some (Throw TypeError c1)
             else
               reconcile (setState n) Undefined
                 (snd (doSubscribe ChildrenSubscriber
                    (c1\<lparr>currentValue := Arr (map (\<lambda>v. if isFnState v then v else FnState v) vs),
                        bindContexts := bindContexts c1 @
                          [\<lparr>element = el, parent = cs, boundElementByKey = [],
                            nextNode = freshId cs, rendered = [], ops = []\<rparr>]\<rparr>)))
         | v \<Rightarrow> Some (Throw NotAnArray c1))"


section \<open>Notions used in the properties\<close>


text \<open>
  What a caller does with a container afterwards: calls of the container function with
  one argument, \<open>subscribe\<close>, calls of tokens and \<open>bindChildren\<close>, in any order. A call
  that throws leaves the state it reached.
\<close>

datatype action =
    Set jsval
  | Subscribe callback
  | Unsubscribe nat
  | BindChildren "node list" "jsval \<Rightarrow> bool"

fun perform :: "nat \<Rightarrow> action \<Rightarrow> ctx \<Rightarrow> ctx option" where
  "perform n (Set v) c = map_option stateOf (state n [Val v] c)"
| "perform n (Subscribe cb) c = Some (snd (doSubscribe cb c))"
| "perform n (Unsubscribe tok) c = Some (stateOf (unsubscribe tok c))"
| "perform n (BindChildren cs el) c = map_option stateOf (doBindChildren n cs el c)"

fun performAll :: "nat \<Rightarrow> action list \<Rightarrow> ctx \<Rightarrow> ctx option" where
  "performAll n [] c = Some c"
| "performAll n (a # as) c =
     (case perform n a c of None \<Rightarrow> None | Some c' \<Rightarrow> performAll n as c')"

text \<open>The ids of the observers called in a stretch of events.\<close>

definition notifiedIds :: "event list \<Rightarrow> nat set" where
  "notifiedIds evs = {i. \<exists>v w. Notified i v w \<in> set evs}"

text \<open>
  What a call of \<open>ctx.state\<close> leaves alone: the registry, the id counter and the tokens;
  the events it adds are calls of registered observers and warnings.
\<close>

definition frame :: "ctx \<Rightarrow> ctx \<Rightarrow> bool" where
  "frame c c' \<longleftrightarrow>
     observers c' = observers c \<and> nextId c' = nextId c \<and> nulled c' = nulled c \<and>
     (\<exists>evs. events c' = events c @ evs \<and> notifiedIds evs \<subseteq> oid ` set (observers c))"

definition framed :: "(jsval \<Rightarrow> ctx \<Rightarrow> (jsval, ctx) outcome option) \<Rightarrow> bool" where
  "framed st \<longleftrightarrow> (\<forall>v c r. st v c = Some r \<longrightarrow> frame c (stateOf r))"

text \<open>The ids in the registry are those handed out: pairwise different and below \<open>nextId\<close>.\<close>

definition idsOk :: "ctx \<Rightarrow> bool" where
  "idsOk c \<longleftrightarrow>
     distinct (map oid (observers c)) \<and> (\<forall>ob \<in> set (observers c). oid ob < nextId c)"

definition gone :: "nat \<Rightarrow> ctx \<Rightarrow> bool" where
  "gone tok c \<longleftrightarrow> tok \<notin> oid ` set (observers c) \<and> tok < nextId c"

text \<open>A key function \<open>o => o.id\<close>, and a container bound to an empty parent.\<close>

definition itemId :: "jsval \<Rightarrow> jsval \<Rightarrow> jsval" where
  "itemId ob i = getProperty ''id'' ob"

definition boundTo ::
  "jsval \<Rightarrow> (jsval \<Rightarrow> jsval \<Rightarrow> jsval) option \<Rightarrow> (unit, ctx) outcome option" where
  "boundTo v mk = doBindChildren 0 [] (\<lambda>v. True) (fnstate v mk)"


text \<open>
  A container bound to \<open>[1]\<close> with the key function above, with a callback subscribed
  after the binding.
\<close>

definition listening :: ctx where
  "listening =
     snd (doSubscribe (UserFn 1) (stateOf (the (boundTo (Arr [Num 1]) (Some itemId)))))"

text \<open>
  The state of a bind context that the reconciliation keeps up: every node is filed
  in \<open>boundElementByKey\<close> under the property name of its key tag, no node is a child
  twice, and every child of the parent is a node bound in the table. \<open>nodeFor\<close> is
  the node bound to a key.
\<close>

definition wfKids :: "(string \<rightharpoonup> node) \<Rightarrow> node list \<Rightarrow> bool" where
  "wfKids m cs \<longleftrightarrow>
     (\<forall>s u. m s = Some u \<longrightarrow> propKey (nodeKey u) = s) \<and> distinct cs \<and>
     (\<forall>u \<in> set cs. m (propKey (nodeKey u)) = Some u)"

definition managed :: "bindContext \<Rightarrow> bool" where
  "managed bc \<longleftrightarrow> wfKids (map_of (boundElementByKey bc)) (parent bc)"

definition nodeFor :: "bindContext \<Rightarrow> jsval \<Rightarrow> node" where
  "nodeFor bc k = the (map_of (boundElementByKey bc) (propKey k))"

text \<open>
  The invariant of the second loop: the nodes of the keys \<open>done\<close> so far are the last
  children of the parent, in the order of the keys, and \<open>prev\<close> is the first of them.
\<close>

definition placed :: "jsval list \<Rightarrow> node option \<Rightarrow> bindContext \<Rightarrow> bool" where
  "placed done prev bc \<longleftrightarrow>
     managed bc \<and> (\<forall>k \<in> set done. map_of (boundElementByKey bc) (propKey k) \<noteq> None) \<and>
     (\<exists>L. parent bc = L @ map (nodeFor bc) done) \<and>
     prev = (case done of [] \<Rightarrow> None | k # ks \<Rightarrow> Some (nodeFor bc k))"

text \<open>What one round of the second loop does to the table of bound nodes.\<close>

definition step :: "(string \<times> nat) list \<Rightarrow> jsval \<Rightarrow> bindContext \<Rightarrow> bindContext \<Rightarrow> bool" where
  "step keys k bc bc' \<longleftrightarrow>
     element bc' = element bc \<and>
     (\<forall>s. map_of keys s \<noteq> None \<longrightarrow> s \<noteq> propKey k \<longrightarrow>
        map_of (boundElementByKey bc') s = map_of (boundElementByKey bc) s) \<and>
     (\<forall>u. map_of (boundElementByKey bc) (propKey k) = Some u \<longrightarrow>
        map_of (boundElementByKey bc') (propKey k) = Some u) \<and>
     (\<forall>s. map_of (boundElementByKey bc') s \<noteq> None \<longrightarrow>
        s = propKey k \<or> map_of (boundElementByKey bc) s \<noteq> None) \<and>
     rendered bc' =
       rendered bc @ (if map_of (boundElementByKey bc) (propKey k) = None then [k] else [])"

text \<open>
  What the whole second loop, over the keys \<open>ks\<close> in the order visited, does to the
  table: nodes bound to keys of the collection stay, entries are added for keys of the
  collection only, and \<open>element\<close> is called for the keys that had no node.
\<close>

definition pass :: "(string \<times> nat) list \<Rightarrow> jsval list \<Rightarrow> bindContext \<Rightarrow> bindContext \<Rightarrow> bool" where
  "pass keys ks bc bc' \<longleftrightarrow>
     element bc' = element bc \<and>
     (\<forall>s u. map_of keys s \<noteq> None \<longrightarrow> map_of (boundElementByKey bc) s = Some u \<longrightarrow>
        map_of (boundElementByKey bc') s = Some u) \<and>
     (\<forall>s. map_of (boundElementByKey bc') s \<noteq> None \<longrightarrow>
        s \<in> propKey ` set ks \<or> map_of (boundElementByKey bc) s \<noteq> None) \<and>
     rendered bc' =
       rendered bc @ filter (\<lambda>k. map_of (boundElementByKey bc) (propKey k) = None) ks"

text \<open>
  The children of the parent are the nodes bound to the keys of the collection, in the
  order of the collection, and no other key has a node.
\<close>

definition aligned :: "jsval list \<Rightarrow> bindContext \<Rightarrow> bool" where
  "aligned ks bc \<longleftrightarrow>
     managed bc \<and> parent bc = map (nodeFor bc) ks \<and>
     (\<forall>s. map_of (boundElementByKey bc) s \<noteq> None \<longleftrightarrow> s \<in> propKey ` set ks)"

text \<open>An item as the reconciliation leaves it in the array, and the key of an item.\<close>

definition wrapped :: "jsval \<Rightarrow> jsval" where
  "wrapped v = (if isFnState v then v else FnState v)"

definition itemKey :: "(jsval \<Rightarrow> jsval \<Rightarrow> jsval) option \<Rightarrow> jsval \<Rightarrow> jsval" where
  "itemKey mk v = keyMapper mk (readState (wrapped v))"

text \<open>
  The bind context \<open>i\<close> is in the state in which a pass over it leaves it for the
  value the container has.
\<close>

definition settled :: "nat \<Rightarrow> ctx \<Rightarrow> bool" where
  "settled i c \<longleftrightarrow>
     i < length (bindContexts c) \<and>
     (if \<not> truthy (lengthOf (currentValue c))
      then parent (bindContexts c ! i) = [] \<and> boundElementByKey (bindContexts c ! i) = [] \<and>
           selectObservers c = []
      else \<exists>vs. currentValue c = Arr vs \<and> (\<forall>v \<in> set vs. isFnState v) \<and>
             aligned (map (itemKey (mapKey c)) vs) (bindContexts c ! i))"

text \<open>An item as the reconciliation leaves it in the array, and the key of an item.\<close>

text \<open>The value of the container once the items of an array are wrapped.\<close>

definition wrappedValue :: "jsval \<Rightarrow> jsval" where
  "wrappedValue v = (case v of Arr vs \<Rightarrow> Arr (map wrapped vs) | _ \<Rightarrow> v)"

text \<open>What a pass over the bind context \<open>i\<close> that returns has changed.\<close>

definition arranged :: "nat \<Rightarrow> ctx \<Rightarrow> ctx \<Rightarrow> bool" where
  "arranged i c c' \<longleftrightarrow>
     (\<exists>bc' so'. c' = c\<lparr>bindContexts := (bindContexts c)[i := bc'],
                         currentValue := wrappedValue (currentValue c),
                         selectObservers := so'\<rparr> \<and>
        element bc' = element (bindContexts c ! i) \<and>
        (\<not> truthy (lengthOf (currentValue c)) \<longrightarrow> so' = []) \<and>
        (\<forall>vs. currentValue c = Arr vs \<longrightarrow> vs \<noteq> [] \<longrightarrow>
           (\<forall>k \<in> set (map (itemKey (mapKey c)) vs). \<forall>w.
              map_of (boundElementByKey (bindContexts c ! i)) (propKey k) = Some w \<longrightarrow>
              nodeFor bc' k = w) \<and>
           rendered bc' = rendered (bindContexts c ! i) @
             filter (\<lambda>k. map_of (boundElementByKey (bindContexts c ! i)) (propKey k) = None)
               (rev (map (itemKey (mapKey c)) vs))))"


text \<open>
  What a pass over a bind context makes of it, for the keys \<open>ks\<close> of the collection:
  the context is aligned with the keys, the keys that had a node keep it, and
  \<open>element\<close> has been called for the keys that had none, from the last to the first.
\<close>

definition outcome :: "jsval list \<Rightarrow> bindContext \<Rightarrow> bindContext \<Rightarrow> bool" where
  "outcome ks bc bc' \<longleftrightarrow>
     aligned ks bc' \<and> element bc' = element bc \<and>
     (\<forall>k \<in> set ks. \<forall>w. map_of (boundElementByKey bc) (propKey k) = Some w \<longrightarrow>
        nodeFor bc' k = w) \<and>
     rendered bc' =
       rendered bc @ filter (\<lambda>k. map_of (boundElementByKey bc) (propKey k) = None) (rev ks)"

text \<open>The fields a pass writes.\<close>

definition passed :: "ctx \<Rightarrow> ctx \<Rightarrow> bool" where
  "passed c c' \<longleftrightarrow>
     (\<exists>bcs v so. c' = c\<lparr>bindContexts := bcs, currentValue := v, selectObservers := so\<rparr> \<and>
        length bcs = length (bindContexts c) \<and>
        (v = currentValue c \<or> v = wrappedValue (currentValue c)))"

text \<open>An item \<open>{id: s}\<close>.\<close>

definition item :: "string \<Rightarrow> jsval" where
  "item s = Obj [(''id'', Str s)]"

text \<open>
  \<open>calledWith v w\<close> holds of the calls of observers with the arguments \<open>v\<close> and \<open>w\<close>.
  \<open>watched\<close> is a container bound to three items, with an observer subscribed after
  the binding; \<open>duplicated\<close> is a collection in which a key occurs twice; \<open>plain\<close> is a
  container with two callbacks and no binding.
\<close>

definition calledWith :: "jsval \<Rightarrow> jsval \<Rightarrow> event \<Rightarrow> bool" where
  "calledWith v w e = (case e of Notified i a b \<Rightarrow> a = v \<and> b = w | _ \<Rightarrow> False)"




section \<open>Properties\<close>
subsection \<open>Reading the value\<close>

text \<open>
  C10. Calling the container function with no argument, or with the container function
  itself as the only argument, returns the current value and leaves the container as
  it is: nothing is stored and no observer is called.
\<close>

theorem state_read:
  "state n [] c = Some (Return (currentValue c) c) \<and>
   state n [Self] c = Some (Return (currentValue c) c)"
  by (simp add: state_def)

theorem state_read_witness:
  "state 0 [] (fnstate (Num 1) None) = Some (Return (Num 1) (fnstate (Num 1) None)) \<and>
   state 0 [Self] (fnstate (Num 1) None) = Some (Return (Num 1) (fnstate (Num 1) None))"
  using state_read [of 0 "fnstate (Num 1) None"] by (simp add: fnstate_def)

subsection \<open>Selection\<close>





subsection \<open>Paths\<close>






subsection \<open>What a write leaves alone\<close>

lemma notifiedIds_simps [simp]:
  "notifiedIds [] = {}"
  "notifiedIds (xs @ ys) = notifiedIds xs \<union> notifiedIds ys"
  "notifiedIds [Notified i v w] = {i}"
  "notifiedIds [Warned x] = {}"
  by (auto simp: notifiedIds_def)

lemma frame_refl [simp]: "frame c c"
  by (simp add: frame_def)

lemma frame_trans: "frame a b \<Longrightarrow> frame b c \<Longrightarrow> frame a c"
  by (auto simp: frame_def)

lemma frame_cong:
  "observers c = observers d \<Longrightarrow> nextId c = nextId d \<Longrightarrow> nulled c = nulled d \<Longrightarrow>
   events c = events d \<Longrightarrow> frame c e = frame d e"
  by (simp add: frame_def)

lemma frame_upd [simp]:
  "frame (c\<lparr>currentValue := v\<rparr>) d = frame c d"
  "frame c (d\<lparr>currentValue := v\<rparr>) = frame c d"
  "frame c (d\<lparr>selectObservers := so\<rparr>) = frame c d"
  "frame c (d\<lparr>bindContexts := bs\<rparr>) = frame c d"
  "frame c (setBindContext i bc d) = frame c d"
  by (simp_all add: frame_def setBindContext_def)

lemma framedD: "framed st \<Longrightarrow> st v c = Some r \<Longrightarrow> frame c (stateOf r)"
  by (simp add: framed_def)

lemma frame_arrange:
  assumes "framed st" and "arrangeElements st i old c = Some r"
  shows "frame c (stateOf r)"
  using assms(2) framedD [OF assms(1)]
  by (fastforce simp: arrangeElements_def Let_def
      split: if_splits jsval.splits prod.splits option.splits outcome.splits)

lemma frame_reconcileFrom:
  assumes "framed st" and "reconcileFrom st is old c = Some r"
  shows "frame c (stateOf r)"
  using assms(2)
proof (induction "is" arbitrary: c)
  case Nil
  then show ?case by auto
next
  case (Cons i "is")
  then show ?case
    using frame_arrange [OF assms(1), of i old c]
    by (auto split: option.splits outcome.splits intro: frame_trans)
qed

lemma frame_subscriber:
  assumes "framed st" and "childrenSubscriber st v old c = Some r"
  shows "frame c (stateOf r)"
proof (cases "isArray (currentValue c)")
  case True
  then show ?thesis
    using assms frame_reconcileFrom [OF assms(1)]
    by (simp add: childrenSubscriber_def reconcile_def)
next
  case False
  let ?c = "c\<lparr>events := events c @ [Warned NonArrayWarning]\<rparr>"
  have w: "frame c ?c" by (simp add: frame_def)
  from False assms(2) obtain r' where r': "st (Arr [currentValue c]) ?c = Some r'"
    and s: "stateOf r = stateOf r'"
    by (auto simp: childrenSubscriber_def split: option.splits outcome.splits)
  from framedD [OF assms(1) r'] w s show ?thesis
    by (auto intro: frame_trans)
qed

lemma frame_notifyAll:
  assumes "framed st" and "notifyAll (childrenSubscriber st) obs v old c = Some r"
    and "set obs \<subseteq> set (observers c)"
  shows "frame c (stateOf r)"
  using assms(2,3)
proof (induction obs arbitrary: c)
  case Nil
  then show ?case by auto
next
  case (Cons ob obs)
  let ?c = "c\<lparr>events := events c @ [Notified (oid ob) v old]\<rparr>"
  have w: "frame c ?c" using Cons.prems(2) by (auto simp: frame_def)
  show ?case
  proof (cases "fn ob")
    case (UserFn l)
    with Cons.prems have "notifyAll (childrenSubscriber st) obs v old ?c = Some r" by simp
    from Cons.IH [OF this] Cons.prems(2) w show ?thesis
      by (auto intro: frame_trans)
  next
    case ChildrenSubscriber
    show ?thesis
    proof (cases "childrenSubscriber st v old ?c")
      case None
      with ChildrenSubscriber Cons.prems show ?thesis by simp
    next
      case (Some r')
      have f: "frame c (stateOf r')"
        using frame_subscriber [OF assms(1) Some] w by (auto intro: frame_trans)
      show ?thesis
      proof (cases r')
        case (Throw e c')
        with Some ChildrenSubscriber Cons.prems f show ?thesis by auto
      next
        case (Return u c')
        with Some ChildrenSubscriber Cons.prems
        have n: "notifyAll (childrenSubscriber st) obs v old c' = Some r" by simp
        have "set obs \<subseteq> set (observers c')"
          using f Return Cons.prems(2) by (auto simp: frame_def)
        from Cons.IH [OF n this] f Return show ?thesis
          by (auto intro: frame_trans)
      qed
    qed
  qed
qed

lemma framed_setState: "framed (setState n)"
proof (induction n)
  case 0
  then show ?case by (simp add: framed_def)
next
  case (Suc n)
  show ?case
    unfolding framed_def
  proof (intro allI impI)
    fix v c r
    assume a: "setState (Suc n) v c = Some r"
    then obtain r' where r': "notifyAll (childrenSubscriber (setState n)) (observers c) v
        (currentValue c) (c\<lparr>currentValue := v\<rparr>) = Some r'" and s: "stateOf r = stateOf r'"
      by (auto split: option.splits outcome.splits)
    from frame_notifyAll [OF Suc r'] s show "frame c (stateOf r)" by simp
  qed
qed


subsection \<open>Tokens\<close>

lemma findIndex_nonneg: "x \<in> set xs \<Longrightarrow> p x \<Longrightarrow> 0 \<le> findIndex p xs"
  by (induction xs) (auto simp: Let_def)

lemma splice1_Cons:
  "0 \<le> i \<Longrightarrow> splice1 (i + 1) (x # xs) = x # splice1 i xs"
  by (auto simp: splice1_def Let_def min_def nat_add_distrib)

lemma splice1_findIndex:
  "distinct (map oid obs) \<Longrightarrow> tok \<in> oid ` set obs \<Longrightarrow>
   splice1 (findIndex (\<lambda>l. oid l = tok) obs) obs = filter (\<lambda>l. oid l \<noteq> tok) obs"
proof (induction obs)
  case Nil
  then show ?case by simp
next
  case (Cons ob obs)
  show ?case
  proof (cases "oid ob = tok")
    case True
    with Cons.prems(1) have "tok \<notin> oid ` set obs" by simp
    then have "\<forall>l \<in> set obs. oid l \<noteq> tok" by blast
    then have "filter (\<lambda>l. oid l \<noteq> tok) obs = obs" by (simp add: filter_id_conv)
    with True show ?thesis by (simp add: splice1_def)
  next
    case False
    with Cons.prems have t: "tok \<in> oid ` set obs" and d: "distinct (map oid obs)" by auto
    then have "0 \<le> findIndex (\<lambda>l. oid l = tok) obs" by (auto intro: findIndex_nonneg)
    with False Cons.IH [OF d t] show ?thesis
      by (simp add: Let_def splice1_Cons)
  qed
qed

lemma set_splice1: "set (splice1 i xs) \<subseteq> set xs"
  by (auto simp: splice1_def Let_def dest: in_set_takeD in_set_dropD)

lemma gone_frame: "gone tok c \<Longrightarrow> frame c c' \<Longrightarrow>
  gone tok c' \<and> tok \<notin> notifiedIds (drop (length (events c)) (events c'))"
  by (auto simp: gone_def frame_def)

lemma frame_doBindChildren:
  assumes "doBindChildren n cs el c = Some r"
  shows "\<exists>evs. events (stateOf r) = events c @ evs \<and>
           notifiedIds evs \<subseteq> insert (nextId c) (oid ` set (observers c)) \<and>
           set (observers (stateOf r)) \<subseteq> set (observers c) \<union> {\<lparr>oid = nextId c, fn = ChildrenSubscriber\<rparr>} \<and>
           nextId c \<le> nextId (stateOf r)"
proof -
  define c1 where "c1 = (if mapKey c = None
                then c\<lparr>events := events c @ [Warned IndexKeyWarning],
                       mapKey := Some (\<lambda>ob i. i)\<rparr>
                else c)"
  have c1: "observers c1 = observers c" "nextId c1 = nextId c"
    "\<exists>evs. events c1 = events c @ evs \<and> notifiedIds evs = {}"
    by (auto simp: c1_def)
  show ?thesis
  proof (cases "\<exists>vs. currentValue c1 = Arr vs \<and> \<not> (\<exists>v \<in> set vs. v = Null \<or> v = Undefined)")
    case False
    then have "stateOf r = c1"
      using assms unfolding doBindChildren_def c1_def [symmetric] Let_def
      by (auto split: jsval.splits if_splits)
    with c1 show ?thesis by auto
  next
    case True
    then obtain vs where vs: "currentValue c1 = Arr vs" "\<not> (\<exists>v \<in> set vs. v = Null \<or> v = Undefined)"
      by auto
    define c2 where "c2 = snd (doSubscribe ChildrenSubscriber
                    (c1\<lparr>currentValue := Arr (map (\<lambda>v. if isFnState v then v else FnState v) vs),
                        bindContexts := bindContexts c1 @
                          [\<lparr>element = el, parent = cs, boundElementByKey = [],
                            nextNode = freshId cs, rendered = [], ops = []\<rparr>]\<rparr>))"
    have r: "reconcile (setState n) Undefined c2 = Some r"
      using assms vs unfolding doBindChildren_def c1_def [symmetric] Let_def c2_def
      by simp
    have f: "frame c2 (stateOf r)"
      using frame_reconcileFrom [OF framed_setState] r by (simp add: reconcile_def)
    have c2: "observers c2 = observers c @ [\<lparr>oid = nextId c, fn = ChildrenSubscriber\<rparr>]"
      "nextId c2 = nextId c + 1" "events c2 = events c1"
      using c1 by (simp_all add: c2_def doSubscribe_def)
    from f c2 c1(3) show ?thesis
      by (auto simp: frame_def)
  qed
qed

lemma gone_perform:
  assumes "gone tok c" and "perform n a c = Some c'"
  shows "gone tok c' \<and> (\<exists>evs. events c' = events c @ evs \<and> tok \<notin> notifiedIds evs)"
proof (cases a)
  case (Set v)
  with assms(2) obtain r where "setState n v c = Some r" "c' = stateOf r"
    by (auto simp: state_def)
  with framedD [OF framed_setState this(1)] assms(1) show ?thesis
    by (auto simp: gone_def frame_def)
next
  case (Subscribe cb)
  with assms show ?thesis by (auto simp: gone_def doSubscribe_def)
next
  case (Unsubscribe t)
  show ?thesis
  proof (cases "t \<in> set (nulled c)")
    case True
    with Unsubscribe assms show ?thesis by (simp add: unsubscribe_def)
  next
    case False
    with Unsubscribe assms(2)
    have "observers c' = splice1 (findIndex (\<lambda>l. oid l = t) (observers c)) (observers c)"
      "nextId c' = nextId c" "events c' = events c"
      by (auto simp: unsubscribe_def)
    with assms(1) set_splice1 [of "findIndex (\<lambda>l. oid l = t) (observers c)" "observers c"]
    show ?thesis by (auto simp: gone_def)
  qed
next
  case (BindChildren cs el)
  with assms(2) obtain r where r: "doBindChildren n cs el c = Some r" "c' = stateOf r" by auto
  from frame_doBindChildren [OF r(1)] r(2) assms(1) show ?thesis
    by (fastforce simp: gone_def)
qed

lemma gone_performAll:
  assumes "gone tok c" and "performAll n as c = Some c'"
  shows "\<exists>evs. events c' = events c @ evs \<and> tok \<notin> notifiedIds evs"
  using assms
proof (induction "as" arbitrary: c)
  case Nil
  then show ?case by simp
next
  case (Cons a "as")
  from Cons.prems(2) obtain d where d: "perform n a c = Some d" "performAll n as d = Some c'"
    by (auto split: option.splits)
  from gone_perform [OF Cons.prems(1) d(1)] Cons.IH [OF _ d(2)] show ?case
    by auto
qed

text \<open>
  C6, as stated, fails: the second call of a token is not a call that does nothing, it
  throws a TypeError (and changes nothing).
\<close>

theorem unsubscribe_twice:
  "unsubscribe 0 (stateOf (unsubscribe 0 (snd (doSubscribe (UserFn 1) (fnstate Null None)))))
   = Throw TypeError (fnstate Null None\<lparr>nextId := 1, nulled := [0]\<rparr>)"
  by (simp add: unsubscribe_def doSubscribe_def fnstate_def splice1_def)

text \<open>
  C6, amended. For a registration that is in the registry and whose token has not been
  called: calling the token returns and removes exactly that registration, the others
  stay in their order; calling it again throws a TypeError and changes nothing; and
  whatever is done with the container afterwards, no call of the observer is among
  the events that follow.
\<close>

theorem unsubscribe_token:
  assumes "idsOk c" and "tok \<in> oid ` set (observers c)" and "tok \<notin> set (nulled c)"
  shows "\<exists>c'. unsubscribe tok c = Return () c' \<and>
           observers c' = filter (\<lambda>l. oid l \<noteq> tok) (observers c) \<and>
           unsubscribe tok c' = Throw TypeError c' \<and>
           (\<forall>n as c''. performAll n as c' = Some c'' \<longrightarrow>
              (\<exists>evs. events c'' = events c' @ evs \<and> tok \<notin> notifiedIds evs))"
proof -
  define c' where "c' = c\<lparr>observers := filter (\<lambda>l. oid l \<noteq> tok) (observers c), nulled := tok # nulled c\<rparr>"
  have u: "unsubscribe tok c = Return () c'"
    using assms splice1_findIndex [of "observers c" tok]
    by (simp add: unsubscribe_def c'_def idsOk_def)
  have g: "gone tok c'"
    using assms by (auto simp: gone_def c'_def idsOk_def)
  have "unsubscribe tok c' = Throw TypeError c'"
    by (simp add: unsubscribe_def c'_def)
  with u g gone_performAll [OF g] show ?thesis
    by (auto simp: c'_def)
qed

theorem unsubscribe_token_witness:
  "idsOk (snd (doSubscribe (UserFn 1) (fnstate Null None))) \<and>
   (\<exists>c'. unsubscribe 0 (snd (doSubscribe (UserFn 1) (fnstate Null None))) = Return () c' \<and>
        observers c' = [] \<and> unsubscribe 0 c' = Throw TypeError c' \<and>
        (\<forall>c''. performAll 1 [Subscribe (UserFn 2), Set (Num 3)] c' = Some c'' \<longrightarrow>
           (\<exists>evs. events c'' = events c' @ evs \<and> 0 \<notin> notifiedIds evs)))"
proof -
  let ?c = "snd (doSubscribe (UserFn 1) (fnstate Null None))"
  have h: "idsOk ?c" "0 \<in> oid ` set (observers ?c)" "0 \<notin> set (nulled ?c)"
    by (simp_all add: idsOk_def doSubscribe_def fnstate_def)
  have f: "filter (\<lambda>l. oid l \<noteq> 0) (observers ?c) = []"
    by (simp add: doSubscribe_def fnstate_def)
  from unsubscribe_token [OF h] obtain c' where
    "unsubscribe 0 ?c = Return () c'"
    "observers c' = filter (\<lambda>l. oid l \<noteq> 0) (observers ?c)"
    "unsubscribe 0 c' = Throw TypeError c'"
    "\<forall>n as c''. performAll n as c' = Some c'' \<longrightarrow>
       (\<exists>evs. events c'' = events c' @ evs \<and> 0 \<notin> notifiedIds evs)"
    by blast
  with h(1) f show ?thesis by metis
qed

subsection \<open>Keys without a key function\<close>

lemma object_not_state: "typeof a = TObject \<Longrightarrow> \<not> isFnState a"
  by (cases a; simp)

lemma keyLoop_index_fallback:
  assumes "typeof a = TObject" and "typeof b = TObject"
  shows "keyLoop (Some (\<lambda>ob i. i)) [] (FnState a # FnState b # ws) [] [] =
      (FnState a # FnState b # ws, None)"
  using assms by (simp add: keyMapper_def Let_def)

text \<open>
  C9 says that without a key function an item is keyed by its index. The code means
  that too (\<open>ctx.mapKey = (o, i) => i\<close>, under the warning "Using value index as key"),
  but \<open>keyMapper\<close> calls \<open>mapKey(value)\<close> without an index, so every structured item gets
  the key undefined: binding a container whose first two items are objects fails with
  DuplicateKey, whatever the objects are.
\<close>

theorem index_fallback_collides:
  assumes "mapKey c = None" and "currentValue c = Arr (a # b # vs)"
    and "typeof a = TObject" and "typeof b = TObject"
    and "\<forall>v \<in> set (a # b # vs). v \<noteq> Null \<and> v \<noteq> Undefined"
  shows "\<exists>c'. doBindChildren n cs el c = Some (Throw DuplicateKey c')"
proof -
  let ?w = "\<lambda>v. if isFnState v then v else FnState v"
  have ab: "\<not> isFnState a" "\<not> isFnState b"
    using assms(3,4) by (simp_all add: object_not_state)
  define c2 where "c2 = snd (doSubscribe ChildrenSubscriber
     (c\<lparr>events := events c @ [Warned IndexKeyWarning], mapKey := Some (\<lambda>ob i. i),
        currentValue := Arr (map ?w (a # b # vs)),
        bindContexts := bindContexts c @
           [\<lparr>element = el, parent = cs, boundElementByKey = [],
             nextNode = freshId cs, rendered = [], ops = []\<rparr>]\<rparr>))"
  have d: "doBindChildren n cs el c = reconcile (setState n) Undefined c2"
    using assms(1,2,5) by (simp add: doBindChildren_def c2_def Let_def)
  have c2: "mapKey c2 = Some (\<lambda>ob i. i)" "currentValue c2 = Arr (FnState a # FnState b # map ?w vs)"
    "length (bindContexts c2) = Suc (length (bindContexts c))"
    using ab by (simp_all add: c2_def doSubscribe_def)
  have "arrangeElements (setState n) 0 Undefined c2 =
      Some (Throw DuplicateKey (c2\<lparr>currentValue := Arr (FnState a # FnState b # map ?w vs)\<rparr>))"
    using keyLoop_index_fallback [OF assms(3,4)]
    by (simp add: arrangeElements_def c2)
  moreover have "[0..<length (bindContexts c2)] = 0 # [Suc 0..<length (bindContexts c2)]"
    unfolding c2(3) by (rule upt_conv_Cons) simp
  ultimately show ?thesis
    by (simp add: d reconcile_def)
qed

theorem index_fallback_collides_witness:
  "\<exists>c'. doBindChildren 0 [] (\<lambda>v. True)
          (fnstate (Arr [Obj [(''n'', Num 1)], Obj [(''n'', Num 2)]]) None)
        = Some (Throw DuplicateKey c')"
  using index_fallback_collides [of "fnstate (Arr [Obj [(''n'', Num 1)], Obj [(''n'', Num 2)]]) None"
      "Obj [(''n'', Num 1)]" "Obj [(''n'', Num 2)]" "[]" 0 "[]" "\<lambda>v. True"]
  by (simp add: fnstate_def)

subsection \<open>A value that is not an array\<close>

text \<open>
  C8 says that the \<open>set()\<close> which wraps a non-array value runs after the round that
  found it. In the code it runs inside that round: the callback subscribed after the
  binding is called for the wrapped value \<open>[5]\<close> before it is called for \<open>5\<close>, and when
  \<open>state(5)\<close> returns the value is already the array and its item is already rendered.
\<close>

theorem wrap_runs_inside_round:
  "map_option (\<lambda>r. (thrown r, events (stateOf r), currentValue (stateOf r),
       map (\<lambda>b. map nodeKey (parent b)) (bindContexts (stateOf r))))
     (state 2 [Val (Num 5)] listening)
   = Some (None,
       [Notified 0 (Num 5) (Arr [FnState (Num 1)]),
        Warned NonArrayWarning,
        Notified 0 (Arr [Num 5]) (Num 5),
        Notified 1 (Arr [Num 5]) (Num 5),
        Notified 1 (Num 5) (Arr [FnState (Num 1)])],
       Arr [FnState (Num 5)],
       [[Num 5]])"
  by code_simp

subsection \<open>The node abstraction\<close>

lemma previousSibling_notin: "p \<notin> set cs \<Longrightarrow> previousSibling p cs = None"
  by (induction p cs rule: previousSibling.induct) auto

lemma previousSibling_split:
  "p \<notin> set L \<Longrightarrow> p \<notin> set S \<Longrightarrow>
   previousSibling p (L @ p # S) = (if L = [] then None else Some (last L))"
proof (induction L)
  case Nil
  then show ?case by (cases S) (auto simp: previousSibling_notin)
next
  case (Cons x L)
  then show ?case by (cases L) auto
qed

lemma takeWhile_split: "p \<notin> set L \<Longrightarrow> takeWhile (\<lambda>x. x \<noteq> p) (L @ p # S) = L"
  by (induction L) auto

lemma dropWhile_split: "p \<notin> set L \<Longrightarrow> dropWhile (\<lambda>x. x \<noteq> p) (L @ p # S) = p # S"
  by (induction L) auto

lemma putBefore_split:
  "u \<notin> set L \<Longrightarrow> u \<notin> set S \<Longrightarrow> u \<noteq> p \<Longrightarrow> p \<notin> set L \<Longrightarrow>
   putBefore u p (L @ p # S) = L @ u # p # S"
  by (simp add: putBefore_def takeWhile_split dropWhile_split)

lemma replace_split:
  "old \<notin> set L \<Longrightarrow> new \<notin> set S \<Longrightarrow> old \<notin> set S \<Longrightarrow> new \<noteq> old \<Longrightarrow>
   concat (map (\<lambda>x. if x = old then [new] else if x = new then [] else [x]) (L @ old # S))
   = removeAll new L @ new # S"
proof -
  have a: "\<And>L. old \<notin> set L \<Longrightarrow>
      concat (map (\<lambda>x. if x = old then [new] else if x = new then [] else [x]) L) = removeAll new L"
    subgoal for L by (induction L) auto
    done
  assume h: "old \<notin> set L" "new \<notin> set S" "old \<notin> set S" "new \<noteq> old"
  from a [OF h(1)] a [OF h(3)] h show ?thesis by simp
qed


lemma wfKids_pack:
  assumes wf1: "wfKids m1 (L @ S)"
    and m1k: "m1 (propKey k) = Some cur"
    and curS: "cur \<notin> set S"
    and L': "set L' \<subseteq> set L - {cur}" "distinct L'"
    and m': "m' = (\<lambda>s. if s \<in> D then None else m1 s)"
    and D: "\<forall>u \<in> set L' \<union> set S \<union> {cur}. propKey (nodeKey u) \<notin> D"
  shows "wfKids m' (L' @ cur # S)"
proof -
  have tag: "\<And>s u. m1 s = Some u \<Longrightarrow> propKey (nodeKey u) = s"
    using wf1 by (auto simp: wfKids_def)
  have kc: "propKey (nodeKey cur) = propKey k" using tag [OF m1k] .
  have d: "distinct (L' @ cur # S)"
    using wf1 L' curS by (auto simp: wfKids_def)
  have "\<forall>u \<in> set (L' @ cur # S). m' (propKey (nodeKey u)) = Some u"
  proof
    fix u assume u: "u \<in> set (L' @ cur # S)"
    then have nd: "propKey (nodeKey u) \<notin> D" using D by auto
    have "m1 (propKey (nodeKey u)) = Some u"
    proof (cases "u = cur")
      case True
      then show ?thesis using m1k kc by simp
    next
      case False
      with u L' have "u \<in> set (L @ S)" by auto
      then show ?thesis using wf1 by (auto simp: wfKids_def)
    qed
    with nd show "m' (propKey (nodeKey u)) = Some u" by (simp add: m')
  qed
  moreover have "\<forall>s u. m' s = Some u \<longrightarrow> propKey (nodeKey u) = s"
    using tag by (auto simp: m' split: if_splits)
  ultimately show ?thesis using d by (simp add: wfKids_def)
qed

lemma placed_pack:
  assumes wf1: "wfKids m1 (L @ map (\<lambda>k'. the (m1 (propKey k'))) done)"
    and m1k: "m1 (propKey k) = Some cur"
    and dn: "\<forall>k' \<in> set done. m1 (propKey k') \<noteq> None"
    and fresh: "propKey k \<notin> propKey ` set done"
    and L': "set L' \<subseteq> set L - {cur}" "distinct L'"
    and m': "map_of (boundElementByKey bc') = (\<lambda>s. if s \<in> D then None else m1 s)"
    and D: "\<forall>u \<in> set L'. propKey (nodeKey u) \<notin> D" "\<forall>s \<in> D. map_of keys s = None"
    and kin: "map_of keys (propKey k) \<noteq> None"
    and din: "\<forall>k' \<in> set done. map_of keys (propKey k') \<noteq> None"
    and par: "parent bc' = L' @ cur # map (\<lambda>k'. the (m1 (propKey k'))) done"
  shows "placed (k # done) (Some cur) bc'"
proof -
  let ?S = "map (\<lambda>k'. the (m1 (propKey k'))) done"
  have tag: "\<And>s u. m1 s = Some u \<Longrightarrow> propKey (nodeKey u) = s"
    using wf1 by (auto simp: wfKids_def)
  have kc: "propKey (nodeKey cur) = propKey k" using tag [OF m1k] .
  have Sk: "\<forall>u \<in> set ?S. propKey (nodeKey u) \<in> propKey ` set done"
    using dn tag by fastforce
  have curS: "cur \<notin> set ?S"
  proof
    assume "cur \<in> set ?S"
    with Sk have "propKey (nodeKey cur) \<in> propKey ` set done" by blast
    with kc fresh show False by simp
  qed
  have kD: "propKey k \<notin> D" using D(2) kin by auto
  have dD: "\<forall>k' \<in> set done. propKey k' \<notin> D" using D(2) din by auto
  have D': "\<forall>u \<in> set L' \<union> set ?S \<union> {cur}. propKey (nodeKey u) \<notin> D"
    using D(1) Sk dD kc kD by auto
  have wf: "wfKids (map_of (boundElementByKey bc')) (L' @ cur # ?S)"
    by (rule wfKids_pack [OF wf1 m1k curS L' m' D'])
  have n: "map (nodeFor bc') (k # done) = cur # ?S"
    using m1k kD dD by (simp add: nodeFor_def m')
  have "\<forall>k' \<in> set (k # done). map_of (boundElementByKey bc') (propKey k') \<noteq> None"
    using m1k kD dD dn by (simp add: m')
  with wf n par show ?thesis
    unfolding placed_def managed_def
    by (metis (no_types, lifting) list.simps(5) nodeFor_def list.simps(9) list.inject)
qed

subsection \<open>One round of the placement\<close>

lemma currentNode_cases:
  assumes "currentNode k v bc = (cur, isNew, bc1)"
  shows "map_of (boundElementByKey bc1) = (map_of (boundElementByKey bc))(propKey k \<mapsto> cur) \<and>
         parent bc1 = parent bc \<and> element bc1 = element bc \<and> ops bc1 = ops bc \<and>
         isNew = (map_of (boundElementByKey bc) (propKey k) = None) \<and>
         (isNew \<longrightarrow> nodeKey cur = k) \<and>
         (\<not> isNew \<longrightarrow> map_of (boundElementByKey bc) (propKey k) = Some cur \<and> bc1 = bc) \<and>
         rendered bc1 = rendered bc @ (if isNew then [k] else [])"
proof (cases "map_of (boundElementByKey bc) (propKey k)")
  case None
  with assms show ?thesis
    by (auto simp: currentNode_def Let_def update_conv')
next
  case (Some u)
  with assms show ?thesis
    by (auto simp: currentNode_def)
qed

lemma placeNode_result:
  assumes wf1: "wfKids m1 (L @ S)"
    and m1: "m1 = map_of (boundElementByKey bc1)"
    and par: "parent bc1 = L @ S"
    and S: "S = map (\<lambda>k'. the (m1 (propKey k'))) done"
    and m1k: "m1 (propKey k) = Some cur0"
    and curS: "cur0 \<notin> set S"
    and new: "isNew \<longrightarrow> cur0 \<notin> set L"
    and pv: "prev = (case done of [] \<Rightarrow> None | k' # ks \<Rightarrow> Some (the (m1 (propKey k'))))"
    and kin: "map_of keys (propKey k) \<noteq> None"
    and res: "placeNode keys prev cur0 isNew (bc1, so) = Return cur (bc', so')"
  shows "\<exists>L' D. cur = cur0 \<and> parent bc' = L' @ cur0 # S \<and>
           map_of (boundElementByKey bc') = (\<lambda>s. if s \<in> D then None else m1 s) \<and>
           set L' \<subseteq> set L - {cur0} \<and> distinct L' \<and>
           (\<forall>u \<in> set L'. propKey (nodeKey u) \<notin> D) \<and> (\<forall>s \<in> D. map_of keys s = None) \<and>
           element bc' = element bc1 \<and> rendered bc' = rendered bc1"
proof -
  have tag: "\<And>s u. m1 s = Some u \<Longrightarrow> propKey (nodeKey u) = s"
    using wf1 by (auto simp: wfKids_def)
  have kid: "\<And>u. u \<in> set (L @ S) \<Longrightarrow> m1 (propKey (nodeKey u)) = Some u"
    using wf1 by (auto simp: wfKids_def)
  have dist: "distinct (L @ S)" using wf1 by (simp add: wfKids_def)
  have kc: "propKey (nodeKey cur0) = propKey k" using tag [OF m1k] .
  have same: "u = cur0" if "u \<in> set (L @ S)" "nodeKey u = nodeKey cur0" for u
  proof -
    have "m1 (propKey (nodeKey u)) = Some u" using kid that(1) by blast
    moreover have "m1 (propKey (nodeKey u)) = Some cur0" using that(2) kc m1k by simp
    ultimately show ?thesis by simp
  qed
  have goalI: "\<And>L' D. cur = cur0 \<Longrightarrow> parent bc' = L' @ cur0 # S \<Longrightarrow>
           map_of (boundElementByKey bc') = (\<lambda>s. if s \<in> D then None else m1 s) \<Longrightarrow>
           set L' \<subseteq> set L - {cur0} \<Longrightarrow> distinct L' \<Longrightarrow>
           (\<forall>u \<in> set L'. propKey (nodeKey u) \<notin> D) \<Longrightarrow> (\<forall>s \<in> D. map_of keys s = None) \<Longrightarrow>
           element bc' = element bc1 \<Longrightarrow> rendered bc' = rendered bc1 \<Longrightarrow> ?thesis"
    by blast
  have m1e: "map_of (boundElementByKey bc1) = (\<lambda>s. if s \<in> {} then None else m1 s)"
    by (simp add: m1)
  show ?thesis
  proof (cases "done")
    case Nil
    then have p: "prev = None" and S0: "S = []" using pv S by simp_all
    show ?thesis
    proof (cases "L = [] \<or> nodeKey (last L) \<noteq> nodeKey cur0")
      case True
      then have "bc' = appendChild cur0 bc1" "cur = cur0"
        using res p par S0 by (auto simp: placeNode_def lastChild_def split: if_splits)
      then show ?thesis
        using par S0 dist m1e
        by (intro goalI [of "removeAll cur0 L" "{}"]) (auto simp: appendChild_def distinct_removeAll)
    next
      case False
      then have l: "L \<noteq> []" "nodeKey (last L) = nodeKey cur0" by auto
      then have b: "bc' = bc1" "cur = cur0"
        using res p par S0 by (auto simp: placeNode_def lastChild_def split: if_splits)
      have "last L = cur0" using same [of "last L"] l by simp
      then have L: "L = butlast L @ [cur0]" using l(1) by (metis append_butlast_last_id)
      then have "cur0 \<notin> set (butlast L)" using dist
        by (metis Un_iff disjoint_insert(1) distinct_append list.simps(15) set_append in_set_conv_decomp not_distinct_conv_prefix self_append_conv)
      moreover have "set (butlast L) \<subseteq> set L" by (simp add: subsetI in_set_butlastD)
      moreover have "distinct (butlast L)" using dist by (simp add: distinct_butlast)
      ultimately show ?thesis
        using b par S0 L m1e by (intro goalI [of "butlast L" "{}"]) auto
    qed
  next
    case (Cons k' ks)
    define p where "p = the (m1 (propKey k'))"
    have pv': "prev = Some p" using pv Cons by (simp add: p_def)
    obtain S' where S': "S = p # S'" using S Cons by (simp add: p_def)
    have pL: "p \<notin> set L" "p \<notin> set S'" using dist S' by auto
    have pin: "p \<in> set (parent bc1)" using par S' by simp
    have cp: "cur0 \<noteq> p" using curS S' by auto
    have ps: "previousSibling p (parent bc1) = (if L = [] then None else Some (last L))"
      unfolding par S' by (rule previousSibling_split [OF pL])
    show ?thesis
    proof (cases "L = []")
      case True
      have pb: "putBefore cur0 p (parent bc1) = cur0 # S"
        using putBefore_split [of cur0 "[]" S' p] curS cp par S' True by simp
      from res pv' ps True pin have "cur = cur0 \<and> parent bc' = putBefore cur0 p (parent bc1) \<and>
          boundElementByKey bc' = boundElementByKey bc1 \<and> element bc' = element bc1 \<and>
          rendered bc' = rendered bc1"
        by (auto simp: placeNode_def insertAdjacentElement_def insertBefore_def
            split: if_splits outcome.splits)
      with pb True m1e show ?thesis
        by (intro goalI [of "[]" "{}"]) auto
    next
      case False
      define x where "x = last L"
      define L0 where "L0 = butlast L"
      have L: "L = L0 @ [x]" using False by (simp add: x_def L0_def)
      have xin: "x \<in> set (parent bc1)" using par L by simp
      have xL0: "x \<notin> set L0" "x \<notin> set S" using dist L by auto
      have psx: "previousSibling p (parent bc1) = Some x" using ps False by (simp add: x_def)
      show ?thesis
      proof (cases "nodeKey x = nodeKey cur0")
        case True
        then have xc: "x = cur0" using same [of x] L by simp
        from res pv' psx True have "cur = cur0" "bc' = bc1"
          by (auto simp: placeNode_def)
        moreover have "cur0 \<notin> set L0" using xL0 xc by simp
        moreover have "distinct L0" using dist L by simp
        ultimately show ?thesis
          using par L xc m1e by (intro goalI [of L0 "{}"]) auto
      next
        case nk: False
        then have xc: "x \<noteq> cur0" by auto
        have rp: "concat (map (\<lambda>y. if y = x then [cur0] else if y = cur0 then [] else [y])
             (parent bc1)) = removeAll cur0 L0 @ cur0 # S"
          using replace_split [of x L0 cur0 S] xL0 curS xc par L by simp
        have L0': "set (removeAll cur0 L0) \<subseteq> set L - {cur0}" "distinct (removeAll cur0 L0)"
          using dist L by (auto simp: distinct_removeAll)
        show ?thesis
        proof (cases "map_of keys (propKey (nodeKey x)) = None")
          case True
          let ?sx = "propKey (nodeKey x)"
          from res pv' psx nk True xin rp have r: "cur = cur0"
            "parent bc' = removeAll cur0 L0 @ cur0 # S"
            "boundElementByKey bc' = AList.delete ?sx (boundElementByKey bc1)"
            "element bc' = element bc1" "rendered bc' = rendered bc1"
            by (auto simp: placeNode_def replaceWith_def)
          have m: "map_of (boundElementByKey bc') = (\<lambda>s. if s \<in> {?sx} then None else m1 s)"
            by (auto simp: r(3) delete_conv' m1)
          have "\<forall>u \<in> set (removeAll cur0 L0). propKey (nodeKey u) \<notin> {?sx}"
          proof
            fix u assume u: "u \<in> set (removeAll cur0 L0)"
            then have ux: "u \<noteq> x" "u \<in> set (L @ S)" using xL0 L by auto
            have "propKey (nodeKey u) \<noteq> ?sx"
            proof
              assume "propKey (nodeKey u) = ?sx"
              moreover have "x \<in> set (L @ S)" unfolding L by simp
              ultimately have "Some u = Some x" using kid [OF ux(2)] kid [of x] by metis
              with ux show False by simp
            qed
            then show "propKey (nodeKey u) \<notin> {?sx}" by simp
          qed
          with r m L0' True show ?thesis
            by (intro goalI [of "removeAll cur0 L0" "{?sx}"]) auto
        next
          case live: False
          show ?thesis
          proof (cases isNew)
            case True
            then have cL: "cur0 \<notin> set L" using new by simp
            have pb: "putBefore cur0 p (parent bc1) = L @ cur0 # S"
              using putBefore_split [of cur0 L S' p] cL curS cp pL par S' by simp
            from res pv' psx nk live True pin have "cur = cur0 \<and>
                parent bc' = putBefore cur0 p (parent bc1) \<and>
                boundElementByKey bc' = boundElementByKey bc1 \<and> element bc' = element bc1 \<and>
                rendered bc' = rendered bc1"
              by (auto simp: placeNode_def insertAdjacentElement_def insertBefore_def
                  split: if_splits outcome.splits)
            with pb cL dist m1e show ?thesis
              by (intro goalI [of L "{}"]) auto
          next
            case False
            from res pv' psx nk live False xin rp have "cur = cur0"
              "parent bc' = removeAll cur0 L0 @ cur0 # S"
              "boundElementByKey bc' = boundElementByKey bc1"
              "element bc' = element bc1" "rendered bc' = rendered bc1"
              by (auto simp: placeNode_def replaceWith_def)
            with L0' m1e show ?thesis
              by (intro goalI [of "removeAll cur0 L0" "{}"]) auto
          qed
        qed
      qed
    qed
  qed
qed


lemma placeElement_step:
  assumes pl: "placed done prev bc"
    and fresh: "propKey k \<notin> propKey ` set done"
    and kin: "map_of keys (propKey k) \<noteq> None"
    and din: "\<forall>k' \<in> set done. map_of keys (propKey k') \<noteq> None"
    and res: "placeElement keys prev k v (bc, so) = Return cur (bc', so')"
  shows "placed (k # done) (Some cur) bc' \<and> step keys k bc bc'"
proof -
  let ?m0 = "map_of (boundElementByKey bc)"
  obtain cur0 isNew bc1 where cn: "currentNode k v bc = (cur0, isNew, bc1)"
    by (cases "currentNode k v bc") auto
  note c = currentNode_cases [OF cn]
  define m1 where "m1 = map_of (boundElementByKey bc1)"
  have m1: "m1 = ?m0(propKey k \<mapsto> cur0)" using c by (simp add: m1_def)
  from pl obtain L where par: "parent bc = L @ map (nodeFor bc) done"
    and wf0: "wfKids ?m0 (parent bc)"
    and dn: "\<forall>k' \<in> set done. ?m0 (propKey k') \<noteq> None"
    and pv: "prev = (case done of [] \<Rightarrow> None | k' # ks \<Rightarrow> Some (nodeFor bc k'))"
    by (auto simp: placed_def managed_def)
  have tag0: "\<And>s u. ?m0 s = Some u \<Longrightarrow> propKey (nodeKey u) = s"
    using wf0 by (auto simp: wfKids_def)
  have kc: "propKey (nodeKey cur0) = propKey k"
    using c tag0 [of "propKey k" cur0] by (cases isNew) auto
  have old: "m1 s = ?m0 s" if "s \<noteq> propKey k" for s using that by (simp add: m1)
  have dk: "\<forall>k' \<in> set done. propKey k' \<noteq> propKey k" using fresh by (metis imageI)
  define S where "S = map (\<lambda>k'. the (m1 (propKey k'))) done"
  have S: "map (nodeFor bc) done = S"
    using dk by (auto simp: S_def nodeFor_def m1)
  have wf1: "wfKids m1 (L @ S)"
    unfolding wfKids_def
  proof (intro conjI allI impI ballI)
    fix s u assume "m1 s = Some u"
    then show "propKey (nodeKey u) = s"
      using kc tag0 by (cases "s = propKey k") (auto simp: m1)
  next
    show "distinct (L @ S)" using wf0 par S by (simp add: wfKids_def)
  next
    fix u assume "u \<in> set (L @ S)"
    then have u: "?m0 (propKey (nodeKey u)) = Some u"
      using wf0 par S by (auto simp: wfKids_def)
    show "m1 (propKey (nodeKey u)) = Some u"
    proof (cases "propKey (nodeKey u) = propKey k")
      case True
      with u c have "cur0 = u" by (cases isNew) auto
      with True show ?thesis by (simp add: m1)
    next
      case False
      with u show ?thesis by (simp add: m1)
    qed
  qed
  have m1k: "m1 (propKey k) = Some cur0" by (simp add: m1)
  have dn1: "\<forall>k' \<in> set done. m1 (propKey k') \<noteq> None"
    using dn dk by (simp add: m1)
  have Sk: "propKey (nodeKey u) \<in> propKey ` set done" if "u \<in> set S" for u
  proof -
    from that obtain k' where k': "k' \<in> set done" "u = the (m1 (propKey k'))"
      by (auto simp: S_def)
    with dn1 have "m1 (propKey k') = Some u" by auto
    then have "propKey (nodeKey u) = propKey k'"
      using wf1 by (auto simp: wfKids_def)
    with k' show ?thesis by blast
  qed
  have curS: "cur0 \<notin> set S"
  proof
    assume "cur0 \<in> set S"
    from Sk [OF this] kc fresh show False by simp
  qed
  have new: "isNew \<longrightarrow> cur0 \<notin> set L"
  proof (intro impI notI)
    assume n: isNew and "cur0 \<in> set L"
    then have "?m0 (propKey (nodeKey cur0)) = Some cur0"
      using wf0 par by (auto simp: wfKids_def)
    with kc n c show False by simp
  qed
  have pv1: "prev = (case done of [] \<Rightarrow> None | k' # ks \<Rightarrow> Some (the (m1 (propKey k'))))"
    using pv dk by (cases "done") (auto simp: nodeFor_def m1)
  have res1: "placeNode keys prev cur0 isNew (bc1, so) = Return cur (bc', so')"
    using res cn by (simp add: placeElement_def)
  have par1: "parent bc1 = L @ S" using c par S by simp
  from placeNode_result [OF wf1 m1_def par1 S_def m1k curS new pv1 kin res1]
  obtain L' D where r: "cur = cur0" "parent bc' = L' @ cur0 # S"
      "map_of (boundElementByKey bc') = (\<lambda>s. if s \<in> D then None else m1 s)"
      "set L' \<subseteq> set L - {cur0}" "distinct L'"
      "\<forall>u \<in> set L'. propKey (nodeKey u) \<notin> D" "\<forall>s \<in> D. map_of keys s = None"
      "element bc' = element bc1" "rendered bc' = rendered bc1"
    by blast
  have P: "placed (k # done) (Some cur) bc'"
    unfolding r(1)
    by (rule placed_pack [OF wf1 [unfolded S_def] m1k dn1 fresh r(4,5,3,6,7) kin din
          r(2) [unfolded S_def]])
  have "step keys k bc bc'"
    unfolding step_def
  proof (intro conjI allI impI)
    show "element bc' = element bc" using r c by simp
  next
    fix s assume "map_of keys s \<noteq> None" "s \<noteq> propKey k"
    then show "map_of (boundElementByKey bc') s = ?m0 s"
      using r(3,7) by (auto simp: m1)
  next
    fix u assume "?m0 (propKey k) = Some u"
    with c have "cur0 = u" by (cases isNew) auto
    then show "map_of (boundElementByKey bc') (propKey k) = Some u"
      using r(3,7) kin by (auto simp: m1)
  next
    fix s assume "map_of (boundElementByKey bc') s \<noteq> None"
    then show "s = propKey k \<or> ?m0 s \<noteq> None"
      using r(3) by (auto simp: m1 split: if_splits)
  next
    show "rendered bc' = rendered bc @ (if ?m0 (propKey k) = None then [k] else [])"
      using r c by auto
  qed
  with P show ?thesis by simp
qed

subsection \<open>The placement and the cleanup\<close>

lemma pass_Nil: "pass keys [] bc bc"
  by (simp add: pass_def)

lemma pass_step:
  assumes s: "step keys k bc bc1" and p: "pass keys ks bc1 bc'"
    and d: "propKey k \<notin> propKey ` set ks"
    and l: "\<forall>k' \<in> set ks. map_of keys (propKey k') \<noteq> None"
    and kin: "map_of keys (propKey k) \<noteq> None"
  shows "pass keys (k # ks) bc bc'"
proof -
  let ?m = "map_of (boundElementByKey bc)"
  let ?m1 = "map_of (boundElementByKey bc1)"
  let ?m' = "map_of (boundElementByKey bc')"
  have e: "\<forall>k' \<in> set ks. ?m1 (propKey k') = ?m (propKey k')"
  proof
    fix k' assume k': "k' \<in> set ks"
    then have "propKey k' \<noteq> propKey k" using d by (metis imageI)
    with s l k' show "?m1 (propKey k') = ?m (propKey k')" by (simp add: step_def)
  qed
  then have f: "filter (\<lambda>k. ?m1 (propKey k) = None) ks = filter (\<lambda>k. ?m (propKey k) = None) ks"
    by (auto intro: filter_cong)
  have keep: "?m' t = Some u" if "map_of keys t \<noteq> None" "?m t = Some u" for t u
  proof -
    have "?m1 t = Some u" using s that by (cases "t = propKey k") (auto simp: step_def)
    with p that(1) show ?thesis by (simp add: pass_def)
  qed
  have grow: "t \<in> propKey ` set (k # ks) \<or> ?m t \<noteq> None" if "?m' t \<noteq> None" for t
  proof -
    from p that have "t \<in> propKey ` set ks \<or> ?m1 t \<noteq> None" by (simp add: pass_def)
    with s show ?thesis by (auto simp: step_def)
  qed
  have "rendered bc' = rendered bc @ filter (\<lambda>k. ?m (propKey k) = None) (k # ks)"
    using s p f by (simp add: step_def pass_def)
  moreover have "element bc' = element bc" using s p by (simp add: step_def pass_def)
  ultimately show ?thesis
    unfolding pass_def using keep grow by blast
qed

lemma placeAll_loop:
  assumes "placed done prev bc"
    and "distinct (map propKey (map fst items @ done))"
    and "\<forall>k \<in> set (map fst items @ done). map_of keys (propKey k) \<noteq> None"
    and "placeAll keys items prev (bc, so) = Return u (bc', so')"
  shows "(\<exists>prev'. placed (rev (map fst items) @ done) prev' bc') \<and> pass keys (map fst items) bc bc'"
  using assms
proof (induction items arbitrary: "done" prev bc so)
  case Nil
  then show ?case by (auto simp: pass_Nil)
next
  case (Cons kv items)
  obtain k v where kv: "kv = (k, v)" by (cases kv)
  from Cons.prems(4) obtain cur bc1 so1 where
    st: "placeElement keys prev k v (bc, so) = Return cur (bc1, so1)"
    and rest: "placeAll keys items (Some cur) (bc1, so1) = Return u (bc', so')"
    by (auto simp: kv split: outcome.splits)
  have fresh: "propKey k \<notin> propKey ` set done" and fresh': "propKey k \<notin> propKey ` set (map fst items)"
    using Cons.prems(2) by (auto simp: kv)
  have kin: "map_of keys (propKey k) \<noteq> None" using Cons.prems(3) by (simp add: kv)
  have din: "\<forall>k' \<in> set done. map_of keys (propKey k') \<noteq> None" using Cons.prems(3) by simp
  from placeElement_step [OF Cons.prems(1) fresh kin din st]
  have p1: "placed (k # done) (Some cur) bc1" and s1: "step keys k bc bc1" by simp_all
  have d1: "distinct (map propKey (map fst items @ k # done))"
    using Cons.prems(2) by (auto simp: kv)
  have l1: "\<forall>k' \<in> set (map fst items @ k # done). map_of keys (propKey k') \<noteq> None"
    using Cons.prems(3) by (auto simp: kv)
  from Cons.IH [OF p1 d1 l1 rest]
  obtain prev' where p': "placed (rev (map fst items) @ k # done) prev' bc'"
    and ps: "pass keys (map fst items) bc1 bc'" by blast
  have "pass keys (k # map fst items) bc bc'"
    using pass_step [OF s1 ps fresh'] l1 kin by simp
  with p' show ?case by (auto simp: kv)
qed


lemma removeAll_bound:
  assumes "wfKids m cs" and "m s = Some u"
  shows "removeAll u cs = filter (\<lambda>w. propKey (nodeKey w) \<noteq> s) cs"
proof -
  have h: "(u \<noteq> w) = (propKey (nodeKey w) \<noteq> s)" if "w \<in> set cs" for w
  proof -
    have "m (propKey (nodeKey w)) = Some w" using assms(1) that by (simp add: wfKids_def)
    moreover have "propKey (nodeKey u) = s" using assms by (simp add: wfKids_def)
    ultimately show ?thesis using assms(2) by (metis option.inject)
  qed
  have "filter (\<lambda>w. u \<noteq> w) cs = filter (\<lambda>w. propKey (nodeKey w) \<noteq> s) cs"
    by (rule filter_cong [OF refl]) (rule h)
  then show ?thesis by (simp only: removeAll_filter_not_eq)
qed

lemma removeStrays_result:
  assumes "removeStrays keys ss (bc, so) = (bc', so')" and "managed bc"
  shows "managed bc' \<and>
    map_of (boundElementByKey bc') =
      (\<lambda>s. if s \<in> set ss \<and> map_of keys s = None then None
            else map_of (boundElementByKey bc) s) \<and>
    parent bc' =
      filter (\<lambda>u. \<not> (propKey (nodeKey u) \<in> set ss \<and> map_of keys (propKey (nodeKey u)) = None))
        (parent bc) \<and>
    element bc' = element bc \<and> rendered bc' = rendered bc"
  using assms
proof (induction ss arbitrary: bc so)
  case Nil
  then show ?case by simp
next
  case (Cons s ss)
  let ?m = "map_of (boundElementByKey bc)"
  have wf: "wfKids ?m (parent bc)" using Cons.prems(2) by (simp add: managed_def)
  show ?case
  proof (cases "map_of keys s = None")
    case False
    with Cons.prems have "removeStrays keys ss (bc, so) = (bc', so')" by simp
    note ih = Cons.IH [OF this Cons.prems(2)]
    have e: "(t \<in> set (s # ss) \<and> map_of keys t = None) = (t \<in> set ss \<and> map_of keys t = None)"
      for t using False by auto
    show ?thesis unfolding e using ih by blast
  next
    case stray: True
    show ?thesis
    proof (cases "?m s")
      case None
      with stray Cons.prems have "removeStrays keys ss (bc, so) = (bc', so')" by simp
      note ih = Cons.IH [OF this Cons.prems(2)]
      have n: "propKey (nodeKey w) \<noteq> s" if "w \<in> set (parent bc)" for w
      proof
        assume "propKey (nodeKey w) = s"
        moreover have "?m (propKey (nodeKey w)) = Some w" using wf that by (simp add: wfKids_def)
        ultimately show False using None by simp
      qed
      have "filter (\<lambda>u. \<not> (propKey (nodeKey u) \<in> set (s # ss) \<and>
                  map_of keys (propKey (nodeKey u)) = None)) (parent bc) =
             filter (\<lambda>u. \<not> (propKey (nodeKey u) \<in> set ss \<and>
                  map_of keys (propKey (nodeKey u)) = None)) (parent bc)"
        by (rule filter_cong [OF refl]) (use n in auto)
      moreover have "(\<lambda>t. if t \<in> set (s # ss) \<and> map_of keys t = None then None else ?m t) =
             (\<lambda>t. if t \<in> set ss \<and> map_of keys t = None then None else ?m t)"
        using None by (intro ext) auto
      ultimately show ?thesis using ih by presburger
    next
      case (Some u)
      define bc1 where "bc1 = (removeNode u bc)\<lparr>boundElementByKey :=
                                         AList.delete s (boundElementByKey bc)\<rparr>"
      define so1 where "so1 = (if map_of so s \<noteq> None then AList.delete s so else so)"
      have r: "removeStrays keys ss (bc1, so1) = (bc', so')"
        using Cons.prems(1) stray Some by (auto simp: bc1_def so1_def split: if_splits)
      have "parent bc1 = removeAll u (parent bc)"
        by (simp add: bc1_def removeNode_def)
      then have p1: "parent bc1 = filter (\<lambda>w. propKey (nodeKey w) \<noteq> s) (parent bc)"
        using removeAll_bound [OF wf Some] by simp
      have m1: "map_of (boundElementByKey bc1) = ?m(s := None)"
        by (simp add: bc1_def delete_conv')
      have f1: "element bc1 = element bc" "rendered bc1 = rendered bc"
        by (simp_all add: bc1_def removeNode_def)
      have "wfKids (?m(s := None)) (filter (\<lambda>w. propKey (nodeKey w) \<noteq> s) (parent bc))"
        using wf unfolding wfKids_def by simp
      then have mg: "managed bc1" by (simp add: managed_def p1 m1)
      note ih = Cons.IH [OF r mg]
      have "(\<lambda>t. if t \<in> set ss \<and> map_of keys t = None then None
                 else map_of (boundElementByKey bc1) t) =
            (\<lambda>t. if t \<in> set (s # ss) \<and> map_of keys t = None then None else ?m t)"
        using stray by (intro ext) (simp add: m1)
      moreover have "filter (\<lambda>u. \<not> (propKey (nodeKey u) \<in> set ss \<and>
                  map_of keys (propKey (nodeKey u)) = None)) (parent bc1) =
          filter (\<lambda>u. \<not> (propKey (nodeKey u) \<in> set (s # ss) \<and>
                  map_of keys (propKey (nodeKey u)) = None)) (parent bc)"
        unfolding p1 filter_filter
        by (rule filter_cong [OF refl]) (use stray in auto)
      ultimately show ?thesis using ih f1 by presburger
    qed
  qed
qed


lemma placed_start: "managed bc \<Longrightarrow> placed [] None bc"
  by (simp add: placed_def)

lemma loops_align:
  assumes mg: "managed bc" and dk: "distinct (map propKey ks)"
    and kd: "\<forall>s. map_of keys s \<noteq> None \<longleftrightarrow> s \<in> propKey ` set ks"
    and len: "length vs = length ks"
    and pa: "placeAll keys (rev (zip ks vs)) None (bc, so) = Return u (bc1, so1)"
    and rs: "removeStrays keys (map fst (boundElementByKey bc1)) (bc1, so1) = (bc', so')"
  shows "aligned ks bc' \<and> element bc' = element bc \<and>
         (\<forall>k \<in> set ks. \<forall>w. map_of (boundElementByKey bc) (propKey k) = Some w \<longrightarrow>
            nodeFor bc' k = w) \<and>
         rendered bc' =
           rendered bc @ filter (\<lambda>k. map_of (boundElementByKey bc) (propKey k) = None) (rev ks)"
proof -
  let ?m1 = "map_of (boundElementByKey bc1)"
  let ?m' = "map_of (boundElementByKey bc')"
  have f: "map fst (rev (zip ks vs)) = rev ks" using len by (simp add: rev_map [symmetric])
  have live: "\<forall>k \<in> set (map fst (rev (zip ks vs)) @ []). map_of keys (propKey k) \<noteq> None"
    using kd f by auto
  have d: "distinct (map propKey (map fst (rev (zip ks vs)) @ []))"
    using dk f by (simp add: rev_map [symmetric])
  from placeAll_loop [OF placed_start [OF mg] d live pa]
  obtain prev' where pl: "placed ks prev' bc1" and ps: "pass keys (rev ks) bc bc1"
    by (auto simp: f)
  from pl obtain L where mg1: "managed bc1" and par1: "parent bc1 = L @ map (nodeFor bc1) ks"
    and b1: "\<forall>k \<in> set ks. ?m1 (propKey k) \<noteq> None"
    by (auto simp: placed_def)
  have wf1: "wfKids ?m1 (L @ map (nodeFor bc1) ks)"
    using mg1 par1 by (simp add: managed_def)
  note r = removeStrays_result [OF rs mg1]
  have dom1: "t \<in> set (map fst (boundElementByKey bc1))" if "?m1 t \<noteq> None" for t
    using that by (metis map_of_eq_None_iff set_map)
  have m': "?m' t = (if map_of keys t = None then None else ?m1 t)" for t
  proof (cases "?m1 t")
    case None
    with r show ?thesis by simp
  next
    case (Some w)
    then have "t \<in> set (map fst (boundElementByKey bc1))" using dom1 by simp
    with r show ?thesis by simp
  qed
  have lk: "map_of keys (propKey k) \<noteq> None" if "k \<in> set ks" for k
    using that kd by (metis imageI)
  have nf: "nodeFor bc' k = nodeFor bc1 k" if "k \<in> set ks" for k
    using lk [OF that] m' [of "propKey k"] by (auto simp: nodeFor_def)
  have keepS: "\<not> (propKey (nodeKey w) \<in> set (map fst (boundElementByKey bc1)) \<and>
           map_of keys (propKey (nodeKey w)) = None)" if "w \<in> set (map (nodeFor bc1) ks)" for w
  proof -
    from that obtain k where k: "k \<in> set ks" "w = nodeFor bc1 k" by auto
    with b1 have "?m1 (propKey k) = Some w" by (auto simp: nodeFor_def)
    then have "propKey (nodeKey w) = propKey k" using wf1 by (auto simp: wfKids_def)
    with k kd show ?thesis by auto
  qed
  have dropL: "propKey (nodeKey w) \<in> set (map fst (boundElementByKey bc1)) \<and>
           map_of keys (propKey (nodeKey w)) = None" if w: "w \<in> set L" for w
  proof -
    have mw: "?m1 (propKey (nodeKey w)) = Some w" using wf1 w by (auto simp: wfKids_def)
    have "map_of keys (propKey (nodeKey w)) = None"
    proof (rule ccontr)
      assume "map_of keys (propKey (nodeKey w)) \<noteq> None"
      then obtain k where k: "k \<in> set ks" "propKey (nodeKey w) = propKey k" using kd by auto
      with mw have "nodeFor bc1 k = w" by (simp add: nodeFor_def)
      with k have "w \<in> set (map (nodeFor bc1) ks)" by auto
      with w wf1 show False by (auto simp: wfKids_def)
    qed
    with dom1 mw show ?thesis by simp
  qed
  have "parent bc' = map (nodeFor bc1) ks"
    using r par1 keepS dropL by (simp add: filter_id_conv filter_empty_conv)
  then have p': "parent bc' = map (nodeFor bc') ks" using nf by simp
  have dm: "\<forall>s. ?m' s \<noteq> None \<longleftrightarrow> s \<in> propKey ` set ks"
  proof (intro allI iffI)
    fix s assume "?m' s \<noteq> None"
    then show "s \<in> propKey ` set ks" using m' [of s] kd by (auto split: if_splits)
  next
    fix s assume "s \<in> propKey ` set ks"
    then show "?m' s \<noteq> None" using m' [of s] kd b1 by auto
  qed
  have reuse: "\<forall>k \<in> set ks. \<forall>w. map_of (boundElementByKey bc) (propKey k) = Some w \<longrightarrow>
            nodeFor bc' k = w"
  proof (intro ballI allI impI)
    fix k w assume k: "k \<in> set ks" and w: "map_of (boundElementByKey bc) (propKey k) = Some w"
    have "map_of keys (propKey k) \<noteq> None" using kd k by auto
    with ps w have "?m1 (propKey k) = Some w" by (simp add: pass_def)
    with nf [OF k] show "nodeFor bc' k = w" by (simp add: nodeFor_def)
  qed
  have "aligned ks bc'" using r p' dm by (simp add: aligned_def)
  moreover have "element bc' = element bc" using r ps by (simp add: pass_def)
  moreover have "rendered bc' =
           rendered bc @ filter (\<lambda>k. map_of (boundElementByKey bc) (propKey k) = None) (rev ks)"
    using r ps by (simp add: pass_def)
  ultimately show ?thesis using reuse by simp
qed

subsection \<open>The keys and the whole pass\<close>

lemma wrapped_idem [simp]: "wrapped (wrapped v) = wrapped v"
  by (cases v) (simp_all add: wrapped_def)

lemma wrapped_isFnState [simp]: "isFnState (wrapped v)"
  by (cases v) (simp_all add: wrapped_def)

lemma wrapped_id: "isFnState v \<Longrightarrow> wrapped v = v"
  by (simp add: wrapped_def)

lemma itemKey_wrapped [simp]: "itemKey mk (wrapped v) = itemKey mk v"
  by (simp add: itemKey_def)

lemma keyLoop_step:
  "keyLoop mk pre (v # rest) keys keysArr =
     (if map_of keys (propKey (itemKey mk v)) \<noteq> None then (pre @ wrapped v # rest, None)
      else keyLoop mk (pre @ [wrapped v]) rest
             (AList.update (propKey (itemKey mk v)) (length pre) keys) (keysArr @ [itemKey mk v]))"
  by (simp add: Let_def wrapped_def itemKey_def)

lemma keyLoop_Some:
  assumes "keyLoop mk pre vs keys keysArr = (vs', Some (keys', keysArr'))"
  shows "vs' = pre @ map wrapped vs \<and> keysArr' = keysArr @ map (itemKey mk) vs \<and>
         (\<forall>s. map_of keys' s \<noteq> None \<longleftrightarrow>
              map_of keys s \<noteq> None \<or> s \<in> propKey ` set (map (itemKey mk) vs)) \<and>
         (\<forall>k \<in> set (map (itemKey mk) vs). map_of keys (propKey k) = None) \<and>
         distinct (map propKey (map (itemKey mk) vs))"
  using assms
proof (induction vs arbitrary: pre keys keysArr)
  case Nil
  then show ?case by simp
next
  case (Cons v vs)
  let ?k = "propKey (itemKey mk v)"
  from Cons.prems have n: "map_of keys ?k = None"
    by (auto simp: keyLoop_step simp del: keyLoop.simps split: if_splits)
  with Cons.prems have r: "keyLoop mk (pre @ [wrapped v]) vs
             (AList.update ?k (length pre) keys) (keysArr @ [itemKey mk v])
           = (vs', Some (keys', keysArr'))"
    by (simp add: keyLoop_step del: keyLoop.simps)
  note ih = Cons.IH [OF r]
  have u: "map_of (AList.update ?k (length pre) keys) s \<noteq> None \<longleftrightarrow> map_of keys s \<noteq> None \<or> s = ?k"
    for s by (simp add: update_conv')
  have a: "\<forall>k \<in> set (map (itemKey mk) vs). propKey k \<noteq> ?k \<and> map_of keys (propKey k) = None"
    using ih u by (metis option.distinct(1))
  then have "?k \<notin> set (map propKey (map (itemKey mk) vs))" by auto
  with ih a n u show ?case by auto
qed

lemma keyLoop_distinct:
  assumes "distinct (map propKey (map (itemKey mk) vs))"
    and "\<forall>k \<in> set (map (itemKey mk) vs). map_of keys (propKey k) = None"
  shows "\<exists>keys'. keyLoop mk pre vs keys keysArr =
           (pre @ map wrapped vs, Some (keys', keysArr @ map (itemKey mk) vs))"
  using assms
proof (induction vs arbitrary: pre keys keysArr)
  case Nil
  then show ?case by simp
next
  case (Cons v vs)
  let ?k = "propKey (itemKey mk v)"
  have n: "map_of keys ?k = None" using Cons.prems(2) by simp
  have "?k \<notin> set (map propKey (map (itemKey mk) vs))"
    using Cons.prems(1) by simp
  then have "\<forall>k \<in> set (map (itemKey mk) vs). propKey k \<noteq> ?k"
    by (metis imageI set_map)
  then have "\<forall>k \<in> set (map (itemKey mk) vs).
          map_of (AList.update ?k (length pre) keys) (propKey k) = None"
    using Cons.prems(2) by (simp add: update_conv')
  with Cons.IH [of "AList.update ?k (length pre) keys" "pre @ [wrapped v]" "keysArr @ [itemKey mk v]"]
    Cons.prems(1)
  obtain keys' where "keyLoop mk (pre @ [wrapped v]) vs
             (AList.update ?k (length pre) keys) (keysArr @ [itemKey mk v])
          = ((pre @ [wrapped v]) @ map wrapped vs,
             Some (keys', (keysArr @ [itemKey mk v]) @ map (itemKey mk) vs))"
    by auto
  with n show ?case by (simp add: keyLoop_step del: keyLoop.simps)
qed


lemma keyLoop_wrapped:
  "length pre = length pre' \<Longrightarrow>
   snd (keyLoop mk pre (map wrapped vs) keys keysArr) = snd (keyLoop mk pre' vs keys keysArr)"
proof (induction vs arbitrary: pre pre' keys keysArr)
  case Nil
  then show ?case by simp
next
  case (Cons v vs)
  from Cons.IH [of "pre @ [wrapped v]" "pre' @ [wrapped v]"] Cons.prems
  show ?case by (simp add: keyLoop_step del: keyLoop.simps)
qed

lemma placeElement_aligned:
  assumes mg: "managed bc"
    and par: "parent bc = map (nodeFor bc) (A @ k # done)"
    and bd: "map_of (boundElementByKey bc) (propKey k) \<noteq> None"
    and pv: "prev = (case done of [] \<Rightarrow> None | k' # ks \<Rightarrow> Some (nodeFor bc k'))"
  shows "placeElement keys prev k v (bc, so) = Return (nodeFor bc k) (bc, so)"
proof -
  let ?cur = "nodeFor bc k"
  have cn: "currentNode k v bc = (?cur, False, bc)"
    using bd by (auto simp: currentNode_def nodeFor_def)
  have dist: "distinct (parent bc)" using mg by (simp add: managed_def wfKids_def)
  have "placeNode keys prev ?cur False (bc, so) = Return ?cur (bc, so)"
  proof (cases "done")
    case Nil
    then have "parent bc = map (nodeFor bc) A @ [?cur]" using par by simp
    then have "lastChild (parent bc) = Some ?cur" by (simp add: lastChild_def)
    with Nil pv show ?thesis by (simp add: placeNode_def)
  next
    case (Cons k' ks)
    let ?p = "nodeFor bc k'"
    have p: "parent bc = (map (nodeFor bc) A @ [?cur]) @ ?p # map (nodeFor bc) ks"
      using par Cons by simp
    have "?p \<notin> set (map (nodeFor bc) A @ [?cur])" "?p \<notin> set (map (nodeFor bc) ks)"
      using dist unfolding p by auto
    from previousSibling_split [OF this]
    have "previousSibling ?p (parent bc) = Some ?cur" unfolding p by simp
    with Cons pv show ?thesis by (simp add: placeNode_def)
  qed
  with cn show ?thesis by (simp add: placeElement_def)
qed

lemma placeAll_aligned:
  assumes "managed bc"
    and "parent bc = map (nodeFor bc) (rev (map fst items) @ done)"
    and "\<forall>k \<in> set (map fst items). map_of (boundElementByKey bc) (propKey k) \<noteq> None"
    and "prev = (case done of [] \<Rightarrow> None | k' # ks \<Rightarrow> Some (nodeFor bc k'))"
  shows "placeAll keys items prev (bc, so) = Return () (bc, so)"
  using assms(2-4)
proof (induction items arbitrary: "done" prev)
  case Nil
  then show ?case by simp
next
  case (Cons kv items)
  obtain k v where kv: "kv = (k, v)" by (cases kv)
  have par: "parent bc = map (nodeFor bc) (rev (map fst items) @ k # done)"
    using Cons.prems(1) by (simp add: kv)
  have bd: "map_of (boundElementByKey bc) (propKey k) \<noteq> None"
    using Cons.prems(2) by (simp add: kv)
  have st: "placeElement keys prev k v (bc, so) = Return (nodeFor bc k) (bc, so)"
    by (rule placeElement_aligned [OF assms(1) par bd Cons.prems(3)])
  have "placeAll keys items (Some (nodeFor bc k)) (bc, so) = Return () (bc, so)"
    using Cons.prems(2) by (intro Cons.IH [of "k # done"]) (simp_all add: par)
  with st show ?case by (simp add: kv)
qed

lemma removeStrays_aligned:
  "\<forall>s \<in> set ss. map_of keys s \<noteq> None \<Longrightarrow> removeStrays keys ss st = st"
  by (induction ss) auto

lemma distinct_map_map: "distinct (map f (map g xs)) \<Longrightarrow> distinct (map g xs)"
  by (induction xs) auto

lemma aligned_distinct:
  assumes "aligned ks bc"
  shows "distinct (map propKey ks)"
proof -
  have "distinct (parent bc)" "parent bc = map (nodeFor bc) ks"
    using assms unfolding aligned_def managed_def wfKids_def by blast+
  then have "distinct (map (nodeFor bc) ks)" by simp
  moreover have "map (nodeFor bc) ks =
      map (\<lambda>s. the (map_of (boundElementByKey bc) s)) (map propKey ks)"
    by (simp add: nodeFor_def comp_def)
  ultimately have "distinct (map (\<lambda>s. the (map_of (boundElementByKey bc) s)) (map propKey ks))"
    by simp
  then show ?thesis by (rule distinct_map_map)
qed

lemma map_wrapped_id: "\<forall>v \<in> set vs. isFnState v \<Longrightarrow> map wrapped vs = vs"
  by (induction vs) (simp_all add: wrapped_id)

lemma arrange_settled:
  assumes "settled i c"
  shows "arrangeElements st i old c = Some (Return () c)"
proof (cases "truthy (lengthOf (currentValue c))")
  case False
  with assms have "parent (bindContexts c ! i) = []" "boundElementByKey (bindContexts c ! i) = []"
    "selectObservers c = []" by (simp_all add: settled_def)
  then have "(clearChildren (bindContexts c ! i))\<lparr>boundElementByKey := []\<rparr> = bindContexts c ! i"
    "c\<lparr>selectObservers := []\<rparr> = c"
    by (simp_all add: clearChildren_def)
  with False show ?thesis
    by (simp add: arrangeElements_def setBindContext_def)
next
  case True
  let ?bc = "bindContexts c ! i"
  from True assms obtain vs where vs: "currentValue c = Arr vs" "\<forall>v \<in> set vs. isFnState v"
    and al: "aligned (map (itemKey (mapKey c)) vs) ?bc"
    by (auto simp: settled_def)
  let ?ks = "map (itemKey (mapKey c)) vs"
  have w: "map wrapped vs = vs" using vs(2) by (rule map_wrapped_id)
  from keyLoop_distinct [OF aligned_distinct [OF al], of "[]" "[]" "[]"]
  obtain keys where kl: "keyLoop (mapKey c) [] vs [] [] = (vs, Some (keys, ?ks))"
    by (auto simp: w)
  from keyLoop_Some [OF kl]
  have kd: "\<forall>s. map_of keys s \<noteq> None \<longleftrightarrow> s \<in> propKey ` set ?ks" by simp
  have mg: "managed ?bc" and par: "parent ?bc = map (nodeFor ?bc) ?ks"
    and dm: "\<forall>s. map_of (boundElementByKey ?bc) s \<noteq> None \<longleftrightarrow> s \<in> propKey ` set ?ks"
    using al by (simp_all add: aligned_def)
  have f: "map fst (rev (zip ?ks vs)) = rev ?ks" by (simp add: rev_map [symmetric])
  have bd: "\<forall>k \<in> set (map fst (rev (zip ?ks vs))). map_of (boundElementByKey ?bc) (propKey k) \<noteq> None"
    unfolding f using dm by (metis imageI set_rev)
  have pa: "placeAll keys (rev (zip ?ks vs)) None (?bc, selectObservers c)
      = Return () (?bc, selectObservers c)"
    by (rule placeAll_aligned [OF mg _ bd, of "[]"]) (simp_all add: f par)
  have "\<forall>s \<in> set (map fst (boundElementByKey ?bc)). map_of keys s \<noteq> None"
  proof
    fix s assume "s \<in> set (map fst (boundElementByKey ?bc))"
    then have "map_of (boundElementByKey ?bc) s \<noteq> None" by (simp add: map_of_eq_None_iff)
    with dm kd show "map_of keys s \<noteq> None" by blast
  qed
  then have rs: "removeStrays keys (map fst (boundElementByKey ?bc)) (?bc, selectObservers c)
      = (?bc, selectObservers c)"
    by (rule removeStrays_aligned)
  have "(setBindContext i ?bc c)\<lparr>currentValue := Arr vs, selectObservers := selectObservers c\<rparr> = c"
    using vs(1) by (simp add: setBindContext_def)
  with True vs(1) kl pa rs show ?thesis
    by (simp add: arrangeElements_def)
qed

lemma lengthOf_falsy_Arr: "\<not> truthy (lengthOf (Arr vs)) \<longleftrightarrow> vs = []"
  by simp

lemma wrappedValue_falsy:
  "\<not> truthy (lengthOf v) \<Longrightarrow> wrappedValue v = v"
  by (cases v) (simp_all add: wrappedValue_def)

lemma arrange_returns:
  assumes i: "i < length (bindContexts c)" and mg: "managed (bindContexts c ! i)"
    and r: "arrangeElements st i old c = Some (Return u c')"
  shows "settled i c' \<and> arranged i c c'"
proof (cases "truthy (lengthOf (currentValue c))")
  case False
  let ?bc' = "(clearChildren (bindContexts c ! i))\<lparr>boundElementByKey := []\<rparr>"
  from False r have c': "c' = (setBindContext i ?bc' c)\<lparr>selectObservers := []\<rparr>"
    by (simp add: arrangeElements_def)
  have w: "wrappedValue (currentValue c) = currentValue c"
    using False by (rule wrappedValue_falsy)
  have "settled i c'"
    using False i by (simp add: settled_def c' setBindContext_def clearChildren_def)
  moreover have "arranged i c c'"
    unfolding arranged_def
  proof (intro exI [of _ ?bc'] exI [of _ "[]"] conjI allI impI)
    show "c' = c\<lparr>bindContexts := (bindContexts c)[i := ?bc'],
                   currentValue := wrappedValue (currentValue c), selectObservers := []\<rparr>"
      by (simp add: c' setBindContext_def w)
  qed (use False in \<open>auto simp: clearChildren_def\<close>)
  ultimately show ?thesis by simp
next
  case True
  let ?bc = "bindContexts c ! i"
  let ?mk = "mapKey c"
  from True r obtain vs where vs: "currentValue c = Arr vs"
    by (cases "currentValue c") (auto simp: arrangeElements_def)
  have ne: "vs \<noteq> []" using True vs by simp
  let ?ks = "map (itemKey ?mk) vs"
  from True r vs obtain vs' keys ks s where kl: "keyLoop ?mk [] vs [] [] = (vs', Some (keys, ks))"
    and pa: "placeAll keys (rev (zip ks vs')) None (?bc, selectObservers c) = Return () s"
    and c': "c' = (setBindContext i
                    (fst (removeStrays keys (map fst (boundElementByKey (fst s))) s)) c)
                 \<lparr>currentValue := Arr vs',
                   selectObservers := snd (removeStrays keys (map fst (boundElementByKey (fst s))) s)\<rparr>"
    by (auto simp: arrangeElements_def Let_def
        split: prod.splits option.splits outcome.splits if_splits)
  from keyLoop_Some [OF kl] have k: "vs' = map wrapped vs" "ks = ?ks"
    "\<forall>s. map_of keys s \<noteq> None \<longleftrightarrow> s \<in> propKey ` set ?ks" "distinct (map propKey ?ks)"
    by simp_all
  obtain bc1 so1 where s: "s = (bc1, so1)" by (cases s)
  obtain bc' so' where rs: "removeStrays keys (map fst (boundElementByKey bc1)) (bc1, so1) = (bc', so')"
    by (cases "removeStrays keys (map fst (boundElementByKey bc1)) (bc1, so1)")
  have len: "length vs' = length ?ks" by (simp add: k)
  note la = loops_align [OF mg k(4) k(3) len pa [unfolded s k(2)] rs]
  have c'': "c' = c\<lparr>bindContexts := (bindContexts c)[i := bc'],
                     currentValue := wrappedValue (currentValue c), selectObservers := so'\<rparr>"
    using c' s rs by (simp add: setBindContext_def k vs wrappedValue_def)
  have "settled i c'"
    unfolding settled_def
    using i ne la by (auto simp: c'' vs wrappedValue_def comp_def)
  moreover have "arranged i c c'"
    unfolding arranged_def
    using c'' la True vs by (intro exI [of _ bc'] exI [of _ so']) auto
  ultimately show ?thesis by simp
qed

lemma settled_other:
  assumes "settled j c" and "arranged i c c'" and "j \<noteq> i"
  shows "settled j c'"
proof -
  from assms(2) obtain bc' so' where c': "c' = c\<lparr>bindContexts := (bindContexts c)[i := bc'],
                         currentValue := wrappedValue (currentValue c),
                         selectObservers := so'\<rparr>"
    and so: "\<not> truthy (lengthOf (currentValue c)) \<longrightarrow> so' = []"
    by (auto simp: arranged_def)
  show ?thesis
  proof (cases "truthy (lengthOf (currentValue c))")
    case False
    with assms(1,3) so wrappedValue_falsy [OF False] show ?thesis
      by (simp add: settled_def c')
  next
    case True
    with assms(1) obtain vs where vs: "currentValue c = Arr vs" "\<forall>v \<in> set vs. isFnState v"
      "aligned (map (itemKey (mapKey c)) vs) (bindContexts c ! j)"
      by (auto simp: settled_def)
    have "wrappedValue (currentValue c) = currentValue c"
      using vs by (simp add: wrappedValue_def map_wrapped_id)
    with True assms(1,3) show ?thesis by (simp add: settled_def c')
  qed
qed

lemma arranged_others:
  assumes "arranged i c c'"
  shows "length (bindContexts c') = length (bindContexts c) \<and>
         (\<forall>j. j \<noteq> i \<longrightarrow> bindContexts c' ! j = bindContexts c ! j)"
  using assms by (auto simp: arranged_def)

lemma reconcileFrom_settles:
  assumes "reconcileFrom st is old c = Some (Return u c')"
    and "\<forall>i \<in> set is. i < length (bindContexts c) \<and> managed (bindContexts c ! i)"
    and "distinct is"
    and "\<forall>j \<in> S. settled j c"
  shows "(\<forall>j \<in> S \<union> set is. settled j c') \<and>
         length (bindContexts c') = length (bindContexts c)"
  using assms
proof (induction "is" arbitrary: c S)
  case Nil
  then show ?case by simp
next
  case (Cons i "is")
  from Cons.prems(1) obtain c1 where a: "arrangeElements st i old c = Some (Return () c1)"
    and r: "reconcileFrom st is old c1 = Some (Return u c')"
    by (auto split: option.splits outcome.splits)
  from Cons.prems(2) have i: "i < length (bindContexts c)" "managed (bindContexts c ! i)"
    by simp_all
  from arrange_returns [OF i a] have s1: "settled i c1" and ar: "arranged i c c1" by simp_all
  note o = arranged_others [OF ar]
  have m1: "\<forall>j \<in> set is. j < length (bindContexts c1) \<and> managed (bindContexts c1 ! j)"
    using Cons.prems(2,3) o by auto
  have S1: "\<forall>j \<in> insert i S. settled j c1"
  proof
    fix j assume j: "j \<in> insert i S"
    show "settled j c1"
    proof (cases "j = i")
      case True
      with s1 show ?thesis by simp
    next
      case False
      with j Cons.prems(4) have "settled j c" by simp
      from settled_other [OF this ar False] show ?thesis .
    qed
  qed
  from Cons.IH [OF r m1 _ S1] Cons.prems(3) o show ?case by simp
qed

lemma reconcileFrom_settled:
  assumes "\<forall>i \<in> set is. settled i c"
  shows "reconcileFrom st is old c = Some (Return () c)"
  using assms by (induction "is") (simp_all add: arrange_settled)

subsection \<open>A second pass\<close>



subsection \<open>A round over contexts that are settled\<close>

lemma settled_events [simp]: "settled i (c\<lparr>events := e\<rparr>) = settled i c"
  by (simp add: settled_def)

lemma reconcile_settled:
  assumes "\<forall>i < length (bindContexts c). settled i c"
  shows "reconcile st old c = Some (Return () c)"
  unfolding reconcile_def using assms by (intro reconcileFrom_settled) simp

lemma subscriber_settled:
  assumes "\<forall>i < length (bindContexts c). settled i c" and "isArray (currentValue c)"
  shows "childrenSubscriber st v w c = Some (Return () c)"
  using assms by (simp add: childrenSubscriber_def reconcile_settled)

lemma notifyAll_settled:
  assumes "\<forall>i < length (bindContexts c). settled i c" and "isArray (currentValue c)"
  shows "notifyAll (childrenSubscriber st) obs v w c =
     Some (Return () (c\<lparr>events := events c @ map (\<lambda>ob. Notified (oid ob) v w) obs\<rparr>))"
  using assms
proof (induction obs arbitrary: c)
  case Nil
  then show ?case by simp
next
  case (Cons ob obs)
  let ?c = "c\<lparr>events := events c @ [Notified (oid ob) v w]\<rparr>"
  have s: "\<forall>i < length (bindContexts ?c). settled i ?c" "isArray (currentValue ?c)"
    using Cons.prems by simp_all
  have "notifyAll (childrenSubscriber st) (ob # obs) v w c =
        notifyAll (childrenSubscriber st) obs v w ?c"
    using subscriber_settled [OF s] by (cases "fn ob") simp_all
  with Cons.IH [OF s] show ?case by simp
qed






subsection \<open>A collection whose keys all have nodes\<close>

lemma wrappedValue_idem [simp]: "wrappedValue (wrappedValue v) = wrappedValue v"
  by (cases v) (simp_all add: wrappedValue_def)

lemma passed_refl: "passed c c"
  unfolding passed_def
  by (intro exI [of _ "bindContexts c"] exI [of _ "currentValue c"] exI [of _ "selectObservers c"])
    simp

lemma passed_trans:
  assumes "passed a b" and "passed b c"
  shows "passed a c"
proof -
  from assms(1) obtain bcs v so where b: "b = a\<lparr>bindContexts := bcs, currentValue := v, selectObservers := so\<rparr>"
    "length bcs = length (bindContexts a)" "v = currentValue a \<or> v = wrappedValue (currentValue a)"
    unfolding passed_def by blast
  from assms(2) obtain bcs' v' so' where c: "c = b\<lparr>bindContexts := bcs', currentValue := v', selectObservers := so'\<rparr>"
    "length bcs' = length (bindContexts b)" "v' = currentValue b \<or> v' = wrappedValue (currentValue b)"
    unfolding passed_def by blast
  have "c = a\<lparr>bindContexts := bcs', currentValue := v', selectObservers := so'\<rparr>"
    using b(1) c(1) by simp
  moreover have "length bcs' = length (bindContexts a)" using b c by simp
  moreover have "v' = currentValue a \<or> v' = wrappedValue (currentValue a)"
    using b c by auto
  ultimately show ?thesis unfolding passed_def by blast
qed

lemma arranged_passed: "i < length (bindContexts c) \<Longrightarrow> arranged i c c' \<Longrightarrow> passed c c'"
  unfolding arranged_def passed_def by (elim exE conjE) (rule exI, rule exI, rule exI, auto)

lemma arrange_outcome:
  assumes i: "i < length (bindContexts c)" and mg: "managed (bindContexts c ! i)"
    and r: "arrangeElements st i old c = Some (Return u c')"
    and v: "currentValue c = Arr vs" "vs \<noteq> []"
  shows "outcome (map (itemKey (mapKey c)) vs) (bindContexts c ! i) (bindContexts c' ! i)"
proof -
  from arrange_returns [OF i mg r] have s: "settled i c'" and a: "arranged i c c'" by simp_all
  from a obtain bc' so' where c': "c' = c\<lparr>bindContexts := (bindContexts c)[i := bc'],
                         currentValue := wrappedValue (currentValue c),
                         selectObservers := so'\<rparr>"
    and e: "element bc' = element (bindContexts c ! i)"
    and ru: "\<forall>k \<in> set (map (itemKey (mapKey c)) vs). \<forall>w.
              map_of (boundElementByKey (bindContexts c ! i)) (propKey k) = Some w \<longrightarrow>
              nodeFor bc' k = w"
      "rendered bc' = rendered (bindContexts c ! i) @
             filter (\<lambda>k. map_of (boundElementByKey (bindContexts c ! i)) (propKey k) = None)
               (rev (map (itemKey (mapKey c)) vs))"
    using v unfolding arranged_def by blast
  have b: "bindContexts c' ! i = bc'" using i by (simp add: c')
  have "aligned (map (itemKey (mapKey c)) vs) bc'"
    using s v i by (auto simp: settled_def c' wrappedValue_def comp_def)
  with e ru b show ?thesis by (simp add: outcome_def)
qed


lemma placeElement_returns:
  assumes pl: "placed done prev bc"
    and bd: "map_of (boundElementByKey bc) (propKey k) \<noteq> None"
  shows "\<exists>cur s'. placeElement keys prev k v (bc, so) = Return cur s'"
proof -
  obtain cur where cn: "currentNode k v bc = (cur, False, bc)"
    using bd by (auto simp: currentNode_def)
  have p: "p \<in> set (parent bc)" if "prev = Some p" for p
  proof -
    from that pl obtain k' ks where "done = k' # ks" "p = nodeFor bc k'"
      by (cases "done") (auto simp: placed_def)
    with pl show ?thesis by (auto simp: placed_def)
  qed
  have "\<exists>s'. placeNode keys prev cur False (bc, so) = Return cur s'"
  proof (cases prev)
    case None
    then show ?thesis by (auto simp: placeNode_def split: option.splits)
  next
    case (Some q)
    with p have "q \<in> set (parent bc)" by simp
    with Some show ?thesis
      by (auto simp: placeNode_def insertAdjacentElement_def insertBefore_def
          split: option.splits)
  qed
  with cn show ?thesis by (auto simp: placeElement_def)
qed

lemma placeAll_returns:
  assumes "placed done prev bc"
    and "distinct (map propKey (map fst items @ done))"
    and "\<forall>k \<in> set (map fst items @ done). map_of keys (propKey k) \<noteq> None"
    and "\<forall>k \<in> set (map fst items). map_of (boundElementByKey bc) (propKey k) \<noteq> None"
  shows "\<exists>s'. placeAll keys items prev (bc, so) = Return () s'"
  using assms
proof (induction items arbitrary: "done" prev bc so)
  case Nil
  then show ?case by simp
next
  case (Cons kv items)
  obtain k v where kv: "kv = (k, v)" by (cases kv)
  have bd: "map_of (boundElementByKey bc) (propKey k) \<noteq> None"
    using Cons.prems(4) by (simp add: kv)
  from placeElement_returns [OF Cons.prems(1) bd, of keys v so]
  obtain cur bc1 so1 where st: "placeElement keys prev k v (bc, so) = Return cur (bc1, so1)"
    by (metis surj_pair)
  have fresh: "propKey k \<notin> propKey ` set done"
    and fresh': "propKey k \<notin> propKey ` set (map fst items)"
    using Cons.prems(2) by (auto simp: kv)
  have kin: "map_of keys (propKey k) \<noteq> None" using Cons.prems(3) by (simp add: kv)
  have din: "\<forall>k' \<in> set done. map_of keys (propKey k') \<noteq> None" using Cons.prems(3) by simp
  from placeElement_step [OF Cons.prems(1) fresh kin din st]
  have p1: "placed (k # done) (Some cur) bc1" and s1: "step keys k bc bc1" by simp_all
  have d1: "distinct (map propKey (map fst items @ k # done))"
    using Cons.prems(2) by (auto simp: kv)
  have l1: "\<forall>k' \<in> set (map fst items @ k # done). map_of keys (propKey k') \<noteq> None"
    using Cons.prems(3) by (auto simp: kv)
  have b1: "\<forall>k' \<in> set (map fst items). map_of (boundElementByKey bc1) (propKey k') \<noteq> None"
  proof
    fix k' assume k': "k' \<in> set (map fst items)"
    then have "propKey k' \<noteq> propKey k" using fresh' by (metis imageI)
    moreover have "map_of keys (propKey k') \<noteq> None" using l1 k' by simp
    ultimately have "map_of (boundElementByKey bc1) (propKey k') =
        map_of (boundElementByKey bc) (propKey k')"
      using s1 by (simp add: step_def)
    moreover have "map_of (boundElementByKey bc) (propKey k') \<noteq> None"
      using Cons.prems(4) k' by auto
    ultimately show "map_of (boundElementByKey bc1) (propKey k') \<noteq> None"
      by simp
  qed
  from Cons.IH [OF p1 d1 l1 b1, of so1] st show ?case by (simp add: kv)
qed

lemma arrange_total:
  assumes i: "i < length (bindContexts c)" and mg: "managed (bindContexts c ! i)"
    and v: "currentValue c = Arr vs" "vs \<noteq> []"
    and d: "distinct (map propKey (map (itemKey (mapKey c)) vs))"
    and b: "\<forall>k \<in> set (map (itemKey (mapKey c)) vs).
              map_of (boundElementByKey (bindContexts c ! i)) (propKey k) \<noteq> None"
  shows "\<exists>c'. arrangeElements st i old c = Some (Return () c')"
proof -
  let ?ks = "map (itemKey (mapKey c)) vs"
  from keyLoop_distinct [OF d, of "[]" "[]" "[]"]
  obtain keys where kl: "keyLoop (mapKey c) [] vs [] [] = (map wrapped vs, Some (keys, ?ks))"
    by auto
  from keyLoop_Some [OF kl]
  have kd: "\<forall>s. map_of keys s \<noteq> None \<longleftrightarrow> s \<in> propKey ` set ?ks" by simp
  have f: "map fst (rev (zip ?ks (map wrapped vs))) = rev ?ks" by (simp add: rev_map [symmetric])
  have "\<exists>s'. placeAll keys (rev (zip ?ks (map wrapped vs))) None
           (bindContexts c ! i, selectObservers c) = Return () s'"
  proof (rule placeAll_returns [OF placed_start [OF mg], of _ keys])
    show "distinct (map propKey (map fst (rev (zip ?ks (map wrapped vs))) @ []))"
      unfolding f using d by (simp add: rev_map [symmetric])
    show "\<forall>k \<in> set (map fst (rev (zip ?ks (map wrapped vs))) @ []). map_of keys (propKey k) \<noteq> None"
      unfolding f using kd by auto
    show "\<forall>k \<in> set (map fst (rev (zip ?ks (map wrapped vs)))).
        map_of (boundElementByKey (bindContexts c ! i)) (propKey k) \<noteq> None"
      unfolding f using b by simp
  qed
  then obtain s' where "placeAll keys (rev (zip ?ks (map wrapped vs))) None
           (bindContexts c ! i, selectObservers c) = Return () s'" by blast
  with kl v show ?thesis by (simp add: arrangeElements_def Let_def)
qed


lemma reconcileFrom_rearrange:
  assumes "currentValue c = Arr vs" and "vs \<noteq> []" and "map (itemKey (mapKey c)) vs = ks"
    and d: "distinct (map propKey ks)"
    and "\<forall>i \<in> set is. i < length (bindContexts c) \<and> managed (bindContexts c ! i) \<and>
           (\<forall>k \<in> set ks. map_of (boundElementByKey (bindContexts c ! i)) (propKey k) \<noteq> None)"
    and "distinct is"
  shows "\<exists>c'. reconcileFrom st is old c = Some (Return () c') \<and> passed c c' \<and>
           (\<forall>j. j \<notin> set is \<longrightarrow> bindContexts c' ! j = bindContexts c ! j) \<and>
           (\<forall>i \<in> set is. outcome ks (bindContexts c ! i) (bindContexts c' ! i)) \<and>
           (\<exists>vs'. currentValue c' = Arr vs' \<and> vs' \<noteq> [] \<and> map (itemKey (mapKey c)) vs' = ks \<and>
              (is \<noteq> [] \<longrightarrow> (\<forall>v \<in> set vs'. isFnState v)))"
  using assms(1,2,3,5,6)
proof (induction "is" arbitrary: c vs)
  case Nil
  then show ?case by (auto simp: passed_refl)
next
  case (Cons i "is")
  from Cons.prems(4) have i: "i < length (bindContexts c)" "managed (bindContexts c ! i)"
    and b: "\<forall>k \<in> set (map (itemKey (mapKey c)) vs).
              map_of (boundElementByKey (bindContexts c ! i)) (propKey k) \<noteq> None"
    by (simp_all add: Cons.prems(3))
  have d': "distinct (map propKey (map (itemKey (mapKey c)) vs))"
    using d by (simp add: Cons.prems(3))
  from arrange_total [OF i Cons.prems(1,2) d' b, of st old]
  obtain c1 where a: "arrangeElements st i old c = Some (Return () c1)" by blast
  from arrange_returns [OF i a] have s1: "settled i c1" and ar: "arranged i c c1" by simp_all
  note o1 = arrange_outcome [OF i a Cons.prems(1,2), unfolded Cons.prems(3)]
  note ot = arranged_others [OF ar]
  note p1 = arranged_passed [OF i(1) ar]
  have v1: "currentValue c1 = Arr (map wrapped vs)" "mapKey c1 = mapKey c"
    using ar Cons.prems(1) by (auto simp: arranged_def wrappedValue_def)
  have k1: "map (itemKey (mapKey c1)) (map wrapped vs) = ks"
    using Cons.prems(3) by (simp add: v1 comp_def)
  have ne1: "map wrapped vs \<noteq> []" using Cons.prems(2) by simp
  have h1: "\<forall>j \<in> set is. j < length (bindContexts c1) \<and> managed (bindContexts c1 ! j) \<and>
           (\<forall>k \<in> set ks. map_of (boundElementByKey (bindContexts c1 ! j)) (propKey k) \<noteq> None)"
    using Cons.prems(4,5) ot by auto
  have di: "distinct is" "i \<notin> set is" using Cons.prems(5) by simp_all
  from Cons.IH [OF v1(1) ne1 k1 h1 di(1)]
  obtain c' vs' where r: "reconcileFrom st is old c1 = Some (Return () c')" "passed c1 c'"
    "\<forall>j. j \<notin> set is \<longrightarrow> bindContexts c' ! j = bindContexts c1 ! j"
    "\<forall>j \<in> set is. outcome ks (bindContexts c1 ! j) (bindContexts c' ! j)"
    "currentValue c' = Arr vs'" "vs' \<noteq> []" "map (itemKey (mapKey c1)) vs' = ks"
    by blast
  have w: "\<forall>v \<in> set vs'. isFnState v"
  proof -
    from r(2) have "currentValue c' = currentValue c1 \<or> currentValue c' = wrappedValue (currentValue c1)"
      by (auto simp: passed_def)
    then have "vs' = map wrapped vs" using r(5) v1(1) by (auto simp: wrappedValue_def)
    then show ?thesis by simp
  qed
  have "\<forall>j \<in> set (i # is). outcome ks (bindContexts c ! j) (bindContexts c' ! j)"
  proof
    fix j assume j: "j \<in> set (i # is)"
    show "outcome ks (bindContexts c ! j) (bindContexts c' ! j)"
    proof (cases "j = i")
      case True
      with r(3) di(2) o1 show ?thesis by simp
    next
      case False
      with j r(4) ot show ?thesis by (metis set_ConsD)
    qed
  qed
  moreover have "\<forall>j. j \<notin> set (i # is) \<longrightarrow> bindContexts c' ! j = bindContexts c ! j"
    using r(3) ot by simp
  moreover have "reconcileFrom st (i # is) old c = Some (Return () c')"
    using a r(1) by simp
  moreover have "passed c c'" using p1 r(2) by (rule passed_trans)
  ultimately show ?case using r(5,6,7) w v1(2) by auto
qed

lemma reconcile_rearrange:
  assumes v: "currentValue c = Arr vs" "vs \<noteq> []" "map (itemKey (mapKey c)) vs = ks"
    and d: "distinct (map propKey ks)"
    and h: "\<forall>i < length (bindContexts c). managed (bindContexts c ! i) \<and>
           (\<forall>k \<in> set ks. map_of (boundElementByKey (bindContexts c ! i)) (propKey k) \<noteq> None)"
  shows "\<exists>c'. reconcile st old c = Some (Return () c') \<and> passed c c' \<and>
           (\<forall>i < length (bindContexts c).
              outcome ks (bindContexts c ! i) (bindContexts c' ! i) \<and> settled i c') \<and>
           isArray (currentValue c')"
proof -
  let ?is = "[0..<length (bindContexts c)]"
  have h': "\<forall>i \<in> set ?is. i < length (bindContexts c) \<and> managed (bindContexts c ! i) \<and>
           (\<forall>k \<in> set ks. map_of (boundElementByKey (bindContexts c ! i)) (propKey k) \<noteq> None)"
    using h by simp
  from reconcileFrom_rearrange [OF v d h', of st old]
  obtain c' vs' where r: "reconcileFrom st ?is old c = Some (Return () c')" "passed c c'"
    "\<forall>i \<in> set ?is. outcome ks (bindContexts c ! i) (bindContexts c' ! i)"
    "currentValue c' = Arr vs'" "vs' \<noteq> []" "map (itemKey (mapKey c)) vs' = ks"
    "?is \<noteq> [] \<longrightarrow> (\<forall>v \<in> set vs'. isFnState v)"
    by auto
  have mk: "mapKey c' = mapKey c" and len: "length (bindContexts c') = length (bindContexts c)"
    using r(2) by (auto simp: passed_def)
  have "settled i c'" if "i < length (bindContexts c)" for i
  proof -
    have "aligned ks (bindContexts c' ! i)" using r(3) that by (simp add: outcome_def)
    moreover have "\<forall>v \<in> set vs'. isFnState v" using r(7) that by auto
    ultimately show ?thesis
      using that r(4,5,6) by (simp add: settled_def mk len)
  qed
  with r show ?thesis by (auto simp: reconcile_def)
qed


lemma notifyAll_rearrange:
  assumes "ChildrenSubscriber \<in> fn ` set obs"
    and "currentValue c = Arr vs" and "vs \<noteq> []" and "map (itemKey (mapKey c)) vs = ks"
    and d: "distinct (map propKey ks)"
    and "\<forall>i < length (bindContexts c). managed (bindContexts c ! i) \<and>
           (\<forall>k \<in> set ks. map_of (boundElementByKey (bindContexts c ! i)) (propKey k) \<noteq> None)"
  shows "\<exists>c'. notifyAll (childrenSubscriber st) obs v w c = Some (Return () c') \<and>
           length (bindContexts c') = length (bindContexts c) \<and>
           (\<forall>i < length (bindContexts c). outcome ks (bindContexts c ! i) (bindContexts c' ! i))"
  using assms(1,2,3,4,6)
proof (induction obs arbitrary: c)
  case Nil
  then show ?case by simp
next
  case (Cons ob obs)
  let ?c = "c\<lparr>events := events c @ [Notified (oid ob) v w]\<rparr>"
  have c: "currentValue ?c = Arr vs" "map (itemKey (mapKey ?c)) vs = ks"
    "\<forall>i < length (bindContexts ?c). managed (bindContexts ?c ! i) \<and>
           (\<forall>k \<in> set ks. map_of (boundElementByKey (bindContexts ?c ! i)) (propKey k) \<noteq> None)"
    using Cons.prems by simp_all
  show ?case
  proof (cases "fn ob")
    case (UserFn l)
    with Cons.prems(1) have "ChildrenSubscriber \<in> fn ` set obs" by auto
    from Cons.IH [OF this c(1) Cons.prems(3) c(2,3)] UserFn show ?thesis by simp
  next
    case ChildrenSubscriber
    from reconcile_rearrange [OF c(1) Cons.prems(3) c(2) d c(3), of st w]
    obtain c1 where r: "reconcile st w ?c = Some (Return () c1)" "passed ?c c1"
      "\<forall>i < length (bindContexts ?c).
          outcome ks (bindContexts ?c ! i) (bindContexts c1 ! i) \<and> settled i c1"
      "isArray (currentValue c1)" by blast
    have len: "length (bindContexts c1) = length (bindContexts c)"
      using r(2) by (auto simp: passed_def)
    have sub: "childrenSubscriber st v w ?c = Some (Return () c1)"
      using r(1) c(1) by (simp add: childrenSubscriber_def)
    have "notifyAll (childrenSubscriber st) obs v w c1 =
       Some (Return () (c1\<lparr>events := events c1 @ map (\<lambda>ob. Notified (oid ob) v w) obs\<rparr>))"
      using r(3,4) len by (intro notifyAll_settled) simp_all
    with sub ChildrenSubscriber r(3) len show ?thesis by simp
  qed
qed

lemma set_rearranges:
  assumes "ChildrenSubscriber \<in> fn ` set (observers c)"
    and "vs \<noteq> []" and "map (itemKey (mapKey c)) vs = ks" and "distinct (map propKey ks)"
    and "\<forall>i < length (bindContexts c). managed (bindContexts c ! i) \<and>
           (\<forall>k \<in> set ks. map_of (boundElementByKey (bindContexts c ! i)) (propKey k) \<noteq> None)"
  shows "\<exists>c'. setState (Suc n) (Arr vs) c = Some (Return (Arr vs) c') \<and>
           length (bindContexts c') = length (bindContexts c) \<and>
           (\<forall>i < length (bindContexts c). outcome ks (bindContexts c ! i) (bindContexts c' ! i))"
proof -
  let ?c = "c\<lparr>currentValue := Arr vs\<rparr>"
  have "\<exists>c'. notifyAll (childrenSubscriber (setState n)) (observers c) (Arr vs) (currentValue c) ?c
            = Some (Return () c') \<and>
           length (bindContexts c') = length (bindContexts ?c) \<and>
           (\<forall>i < length (bindContexts ?c). outcome ks (bindContexts ?c ! i) (bindContexts c' ! i))"
    using assms by (intro notifyAll_rearrange [of _ _ vs]) simp_all
  then show ?thesis by auto
qed

subsection \<open>Binding\<close>

lemma reconcileFrom_passed:
  assumes "reconcileFrom st is old c = Some (Return u c')"
    and "\<forall>i \<in> set is. i < length (bindContexts c) \<and> managed (bindContexts c ! i)"
    and "distinct is"
  shows "passed c c'"
  using assms
proof (induction "is" arbitrary: c)
  case Nil
  then show ?case by (simp add: passed_refl)
next
  case (Cons i "is")
  from Cons.prems(1) obtain c1 where a: "arrangeElements st i old c = Some (Return () c1)"
    and r: "reconcileFrom st is old c1 = Some (Return u c')"
    by (auto split: option.splits outcome.splits)
  from Cons.prems(2) have i: "i < length (bindContexts c)" "managed (bindContexts c ! i)"
    by simp_all
  from arrange_returns [OF i a] have ar: "arranged i c c1" by simp
  note o = arranged_others [OF ar]
  have m1: "\<forall>j \<in> set is. j < length (bindContexts c1) \<and> managed (bindContexts c1 ! j)"
    using Cons.prems(2,3) o by auto
  from Cons.IH [OF r m1] Cons.prems(3) arranged_passed [OF i(1) ar] show ?case
    by (auto intro: passed_trans)
qed

lemma wrappedValue_isArray [simp]: "isArray (wrappedValue v) = isArray v"
  by (cases v) (simp_all add: wrappedValue_def)

lemma bind_settles:
  assumes "doBindChildren n [] el c0 = Some (Return u c)"
    and "\<forall>bc \<in> set (bindContexts c0). managed bc"
  shows "(\<forall>i < length (bindContexts c). settled i c) \<and>
         ChildrenSubscriber \<in> fn ` set (observers c) \<and> bindContexts c \<noteq> [] \<and>
         isArray (currentValue c)"
proof -
  define c1 where "c1 = (if mapKey c0 = None
                then c0\<lparr>events := events c0 @ [Warned IndexKeyWarning],
                       mapKey := Some (\<lambda>ob i. i)\<rparr>
                else c0)"
  have b1: "bindContexts c1 = bindContexts c0" by (simp add: c1_def)
  from assms(1) obtain vs where vs: "currentValue c1 = Arr vs"
    "\<not> (\<exists>v \<in> set vs. v = Null \<or> v = Undefined)"
    unfolding doBindChildren_def c1_def [symmetric] Let_def
    by (cases "currentValue c1") (auto split: if_splits)
  define c2 where "c2 = snd (doSubscribe ChildrenSubscriber
                    (c1\<lparr>currentValue := Arr (map (\<lambda>v. if isFnState v then v else FnState v) vs),
                        bindContexts := bindContexts c1 @
                          [\<lparr>element = el, parent = [], boundElementByKey = [],
                            nextNode = freshId [], rendered = [], ops = []\<rparr>]\<rparr>))"
  have r: "reconcile (setState n) Undefined c2 = Some (Return u c)"
    using assms(1) vs unfolding doBindChildren_def c1_def [symmetric] Let_def c2_def
    by simp
  have c2: "bindContexts c2 = bindContexts c0 @
                          [\<lparr>element = el, parent = [], boundElementByKey = [],
                            nextNode = freshId [], rendered = [], ops = []\<rparr>]"
    "ChildrenSubscriber \<in> fn ` set (observers c2)" "isArray (currentValue c2)"
    by (simp_all add: c2_def doSubscribe_def b1)
  have m: "\<forall>bc \<in> set (bindContexts c2). managed bc"
    using assms(2) by (auto simp: c2 managed_def wfKids_def)
  let ?is = "[0..<length (bindContexts c2)]"
  have m': "\<forall>i \<in> set ?is. i < length (bindContexts c2) \<and> managed (bindContexts c2 ! i)"
    using m by simp
  from reconcileFrom_settles [OF r [unfolded reconcile_def] m', of "{}"]
  have s: "\<forall>j \<in> set ?is. settled j c" and l: "length (bindContexts c) = length (bindContexts c2)"
    by simp_all
  from reconcileFrom_passed [OF r [unfolded reconcile_def] m']
  have p: "passed c2 c" by simp
  then have o: "observers c = observers c2" "isArray (currentValue c)"
    using c2(3) by (auto simp: passed_def)
  have "\<forall>i < length (bindContexts c). settled i c" using s l by simp
  moreover have "bindContexts c \<noteq> []" using l c2(1) by auto
  ultimately show ?thesis using o c2(2) by simp
qed

lemma bound_abc:
  "\<exists>c. boundTo (Arr [item ''a'', item ''b'', item ''c'']) (Some itemId) = Some (Return () c) \<and>
       currentValue c = Arr [FnState (item ''a''), FnState (item ''b''), FnState (item ''c'')] \<and>
       mapKey c = Some itemId \<and>
       map nodeKey (parent (bindContexts c ! 0)) = [Str ''a'', Str ''b'', Str ''c'']"
  by (simp add: boundTo_def doBindChildren_def fnstate_def doSubscribe_def item_def itemId_def
      reconcile_def arrangeElements_def keyMapper_def freshId_def
      setBindContext_def placeElement_def currentNode_def placeNode_def lastChild_def
      appendChild_def insertAdjacentElement_def putBefore_def Let_def)

subsection \<open>Duplicate keys\<close>



text \<open>
  C3. For a container bound to a collection whose value is the array of the items
  \<open>x\<close>, \<open>y\<close>, \<open>z\<close> and whose bind contexts are as the last pass left them: setting the
  value to \<open>[z, x, y]\<close> returns, and in every bound parent the three children are the
  same three nodes as before, now in the order of \<open>z\<close>, \<open>x\<close>, \<open>y\<close>, and \<open>element\<close> has not
  been called.
\<close>

theorem reorder_keeps_nodes:
  assumes sub: "ChildrenSubscriber \<in> fn ` set (observers c)" and ne: "bindContexts c \<noteq> []"
    and v: "currentValue c = Arr [x, y, z]"
    and st: "\<forall>i < length (bindContexts c). settled i c"
  shows "\<exists>c'. setState (Suc n) (Arr [z, x, y]) c = Some (Return (Arr [z, x, y]) c') \<and>
           length (bindContexts c') = length (bindContexts c) \<and>
           (\<forall>i < length (bindContexts c). \<exists>na nb nc.
              parent (bindContexts c ! i) = [na, nb, nc] \<and>
              parent (bindContexts c' ! i) = [nc, na, nb] \<and>
              rendered (bindContexts c' ! i) = rendered (bindContexts c ! i))"
proof -
  let ?k = "itemKey (mapKey c)"
  let ?old = "[?k x, ?k y, ?k z]"
  let ?new = "[?k z, ?k x, ?k y]"
  have al: "aligned ?old (bindContexts c ! i)" if "i < length (bindContexts c)" for i
    using st that v by (auto simp: settled_def)
  have "0 < length (bindContexts c)" using ne by simp
  from aligned_distinct [OF al [OF this]] have d: "distinct (map propKey ?new)" by auto
  have bd: "map_of (boundElementByKey (bindContexts c ! i)) (propKey k) \<noteq> None"
    if "i < length (bindContexts c)" "k \<in> set ?new" for i k
  proof -
    have "propKey k \<in> propKey ` set ?old" using that(2) by auto
    with al [OF that(1)] show ?thesis unfolding aligned_def by blast
  qed
  have h: "\<forall>i < length (bindContexts c). managed (bindContexts c ! i) \<and>
           (\<forall>k \<in> set ?new. map_of (boundElementByKey (bindContexts c ! i)) (propKey k) \<noteq> None)"
    using al bd by (auto simp: aligned_def)
  from set_rearranges [OF sub _ _ d h, of "[z, x, y]" n]
  obtain c' where r: "setState (Suc n) (Arr [z, x, y]) c = Some (Return (Arr [z, x, y]) c')"
    "length (bindContexts c') = length (bindContexts c)"
    "\<forall>i < length (bindContexts c). outcome ?new (bindContexts c ! i) (bindContexts c' ! i)"
    by auto
  have "\<exists>na nb nc. parent (bindContexts c ! i) = [na, nb, nc] \<and>
              parent (bindContexts c' ! i) = [nc, na, nb] \<and>
              rendered (bindContexts c' ! i) = rendered (bindContexts c ! i)"
    if i: "i < length (bindContexts c)" for i
  proof -
    let ?bc = "bindContexts c ! i"
    let ?bc' = "bindContexts c' ! i"
    from r(3) i have o: "outcome ?new ?bc ?bc'" by simp
    have same: "nodeFor ?bc' k = nodeFor ?bc k" if "k \<in> set ?new" for k
    proof -
      from bd [OF i that] obtain w where w: "map_of (boundElementByKey ?bc) (propKey k) = Some w"
        by auto
      with o that have "nodeFor ?bc' k = w" unfolding outcome_def by blast
      with w show ?thesis by (simp add: nodeFor_def)
    qed
    have p: "parent ?bc = [nodeFor ?bc (?k x), nodeFor ?bc (?k y), nodeFor ?bc (?k z)]"
      using al [OF i] by (simp add: aligned_def)
    have "parent ?bc' = map (nodeFor ?bc') ?new" using o by (simp add: outcome_def aligned_def)
    then have p': "parent ?bc' = [nodeFor ?bc (?k z), nodeFor ?bc (?k x), nodeFor ?bc (?k y)]"
      using same by simp
    have "filter (\<lambda>k. map_of (boundElementByKey ?bc) (propKey k) = None) (rev ?new) = []"
      using bd [OF i] by (simp add: filter_empty_conv)
    then have "rendered ?bc' = rendered ?bc" using o by (simp add: outcome_def)
    with p p' show ?thesis by simp
  qed
  with r(1,2) show ?thesis by blast
qed

theorem reorder_keeps_nodes_witness:
  "\<exists>c c'. boundTo (Arr [item ''a'', item ''b'', item ''c'']) (Some itemId) = Some (Return () c) \<and>
     setState 1 (Arr [FnState (item ''c''), FnState (item ''a''), FnState (item ''b'')]) c =
       Some (Return (Arr [FnState (item ''c''), FnState (item ''a''), FnState (item ''b'')]) c') \<and>
     map nodeKey (parent (bindContexts c ! 0)) = [Str ''a'', Str ''b'', Str ''c''] \<and>
     map nodeKey (parent (bindContexts c' ! 0)) = [Str ''c'', Str ''a'', Str ''b''] \<and>
     rendered (bindContexts c' ! 0) = rendered (bindContexts c ! 0)"
proof -
  from bound_abc obtain c where
    c: "boundTo (Arr [item ''a'', item ''b'', item ''c'']) (Some itemId) = Some (Return () c)"
      "currentValue c = Arr [FnState (item ''a''), FnState (item ''b''), FnState (item ''c'')]"
      "map nodeKey (parent (bindContexts c ! 0)) = [Str ''a'', Str ''b'', Str ''c'']"
    by auto
  have "\<forall>bc \<in> set (bindContexts (fnstate (Arr [item ''a'', item ''b'', item ''c'']) (Some itemId))).
          managed bc"
    by (simp add: fnstate_def)
  from bind_settles [OF c(1) [unfolded boundTo_def] this]
  have s: "\<forall>i < length (bindContexts c). settled i c"
    "ChildrenSubscriber \<in> fn ` set (observers c)" "bindContexts c \<noteq> []" by simp_all
  from reorder_keeps_nodes [OF s(2,3) c(2) s(1), of 0] obtain c' where
    r: "setState 1 (Arr [FnState (item ''c''), FnState (item ''a''), FnState (item ''b'')]) c =
       Some (Return (Arr [FnState (item ''c''), FnState (item ''a''), FnState (item ''b'')]) c')"
    and p: "\<forall>i < length (bindContexts c). \<exists>na nb nc.
              parent (bindContexts c ! i) = [na, nb, nc] \<and>
              parent (bindContexts c' ! i) = [nc, na, nb] \<and>
              rendered (bindContexts c' ! i) = rendered (bindContexts c ! i)"
    by auto
  from s(3) have "0 < length (bindContexts c)" by simp
  with p obtain na nb nc where "parent (bindContexts c ! 0) = [na, nb, nc]"
    "parent (bindContexts c' ! 0) = [nc, na, nb]"
    "rendered (bindContexts c' ! 0) = rendered (bindContexts c ! 0)" by blast
  with c(3) have "map nodeKey (parent (bindContexts c' ! 0)) = [Str ''c'', Str ''a'', Str ''b'']"
    "rendered (bindContexts c' ! 0) = rendered (bindContexts c ! 0)" by simp_all
  with c(1,3) r show ?thesis
    by - (rule exI [of _ c], rule exI [of _ c'], (intro conjI; assumption))
qed

subsection \<open>The observers of a write\<close>


lemma calledWith_simps [simp]:
  "calledWith v w (Notified i a b) = (a = v \<and> b = w)"
  "calledWith v w (Warned x) = False"
  "calledWith v w (Fired l) = False"
  by (simp_all add: calledWith_def)
















end
